theory Spec2Isabelle
  imports Complex_Main "HOL-Library.AList"
begin

section \<open>C arithmetic\<close>

text \<open>
  The buffer is written in C for an LP64 target: \<open>int\<close> and \<open>unsigned\<close> have 32 bits,
  \<open>time_t\<close> and \<open>size_t\<close> have 64. Mathematical integers carry the numbers and every
  conversion and wrap-around of the source is written out. A signed operation that
  overflows (undefined in C) is modelled by its two's complement result.
\<close>

definition int32_of :: "int \<Rightarrow> int" where
  \<comment> \<open>conversion to \<open>int\<close>\<close>
  "int32_of x = (x + 2 ^ 31) mod 2 ^ 32 - 2 ^ 31"

definition uint32_of :: "int \<Rightarrow> nat" where
  \<comment> \<open>conversion to \<open>unsigned\<close>\<close>
  "uint32_of x = nat (x mod 2 ^ 32)"

definition c_div :: "int \<Rightarrow> int \<Rightarrow> int" where
  \<comment> \<open>\<open>/\<close> on signed operands: the quotient is truncated towards zero\<close>
  "c_div a b = sgn a * sgn b * (\<bar>a\<bar> div \<bar>b\<bar>)"

definition c_mod :: "int \<Rightarrow> int \<Rightarrow> int" where
  \<comment> \<open>\<open>%\<close> on signed operands: the remainder has the sign of the dividend\<close>
  "c_mod a b = sgn a * (\<bar>a\<bar> mod \<bar>b\<bar>)"

definition c_abs :: "int \<Rightarrow> int" where
  \<comment> \<open>\<open>abs\<close> from stdlib.h on an \<open>int\<close>\<close>
  "c_abs x = int32_of \<bar>x\<bar>"

section \<open>Doubles\<close>

text \<open>
  A cell holds a C \<open>double\<close>, an IEEE 754 binary64 number. The model keeps the three
  special cases apart from the finite ones, which it holds as reals; \<open>Finite 0\<close> stands
  for both zeros, which no operation modelled here tells apart. The result of an
  arithmetic operation is rounded to the nearest binary64 number, a tie to the one with
  an even significand, and a result beyond the largest finite number is an infinity.
  Comparisons involving \<open>NAN\<close> are false, except \<open>!=\<close>, which is true.
\<close>

datatype double = NAN | INFINITY | NEG_INFINITY | Finite real

definition isnan :: "double \<Rightarrow> bool" where
  "isnan d = (d = NAN)"

function expo_up :: "real \<Rightarrow> nat \<Rightarrow> nat" where
  \<comment> \<open>for \<open>a >= 1\<close> and from \<open>k = 0\<close>: the greatest \<open>k\<close> up to 1024 with \<open>2 ^ k <= a\<close>\<close>
  "expo_up a k = (if k < 1024 \<and> 2 ^ (k + 1) \<le> a then expo_up a (k + 1) else k)"
  by pat_completeness auto
termination
  by (relation "measure (\<lambda>(a, k). 1024 - k)") auto

declare expo_up.simps [simp del]

function expo_down :: "real \<Rightarrow> nat \<Rightarrow> nat" where
  \<comment> \<open>for \<open>a < 1\<close> and from \<open>k = 0\<close>: the least \<open>k\<close> up to 1022 with \<open>1 / 2 ^ k <= a\<close>\<close>
  "expo_down a k = (if k < 1022 \<and> a < 1 / 2 ^ k then expo_down a (k + 1) else k)"
  by pat_completeness auto
termination
  by (relation "measure (\<lambda>(a, k). 1022 - k)") auto

declare expo_down.simps [simp del]

definition exponent :: "real \<Rightarrow> int" where
  \<comment> \<open>the binary exponent of a positive number, not below that of the subnormal numbers\<close>
  "exponent a = (if 1 \<le> a then int (expo_up a 0) else - int (expo_down a 0))"

definition pow2 :: "int \<Rightarrow> real" where
  "pow2 e = (if 0 \<le> e then 2 ^ nat e else 1 / 2 ^ nat (- e))"

definition round_half_even :: "real \<Rightarrow> int" where
  "round_half_even q =
     (let f = \<lfloor>q\<rfloor>; d = q - of_int f
      in if d < 1 / 2 then f else if 1 / 2 < d then f + 1 else if even f then f else f + 1)"

definition dround :: "real \<Rightarrow> double" where
  \<comment> \<open>rounding to binary64: a significand of 53 bits, the unit in the last place
     \<open>2 ^ (e - 52)\<close> for the exponent \<open>e\<close>\<close>
  "dround x =
     (if x = 0 then Finite 0
      else
        let ulp = pow2 (exponent \<bar>x\<bar> - 52);
            y = of_int (round_half_even (\<bar>x\<bar> / ulp)) * ulp
        in if 2 ^ 1024 \<le> y then (if x < 0 then NEG_INFINITY else INFINITY)
           else Finite (sgn x * y))"

fun dadd :: "double \<Rightarrow> double \<Rightarrow> double" where
  "dadd NAN _ = NAN"
| "dadd _ NAN = NAN"
| "dadd INFINITY NEG_INFINITY = NAN"
| "dadd NEG_INFINITY INFINITY = NAN"
| "dadd INFINITY _ = INFINITY"
| "dadd _ INFINITY = INFINITY"
| "dadd NEG_INFINITY _ = NEG_INFINITY"
| "dadd _ NEG_INFINITY = NEG_INFINITY"
| "dadd (Finite a) (Finite b) = dround (a + b)"

fun dneg :: "double \<Rightarrow> double" where
  "dneg NAN = NAN"
| "dneg INFINITY = NEG_INFINITY"
| "dneg NEG_INFINITY = INFINITY"
| "dneg (Finite a) = Finite (- a)"

definition dsub :: "double \<Rightarrow> double \<Rightarrow> double" where
  "dsub a b = dadd a (dneg b)"

fun dless :: "double \<Rightarrow> double \<Rightarrow> bool" where
  \<comment> \<open>\<open>a < b\<close>\<close>
  "dless NAN _ = False"
| "dless _ NAN = False"
| "dless INFINITY _ = False"
| "dless _ NEG_INFINITY = False"
| "dless NEG_INFINITY _ = True"
| "dless _ INFINITY = True"
| "dless (Finite a) (Finite b) = (a < b)"

definition dgreater :: "double \<Rightarrow> double \<Rightarrow> bool" where
  \<comment> \<open>\<open>a > b\<close>\<close>
  "dgreater a b = dless b a"

definition dgreater_eq :: "double \<Rightarrow> double \<Rightarrow> bool" where
  \<comment> \<open>\<open>a >= b\<close>\<close>
  "dgreater_eq a b = (a \<noteq> NAN \<and> b \<noteq> NAN \<and> \<not> dless a b)"

definition dnonzero :: "double \<Rightarrow> bool" where
  \<comment> \<open>\<open>value != 0\<close>\<close>
  "dnonzero d = (d \<noteq> Finite 0)"

fun dscale :: "double \<Rightarrow> real \<Rightarrow> double" where
  \<comment> \<open>\<open>d * c\<close> for a finite constant \<open>c > 0\<close>\<close>
  "dscale (Finite a) c = dround (a * c)"
| "dscale d c = d"

definition c_trunc :: "real \<Rightarrow> int" where
  \<comment> \<open>the integer part, rounding towards zero\<close>
  "c_trunc r = (if r < 0 then \<lceil>r\<rceil> else \<lfloor>r\<rfloor>)"

definition time_t_of :: "double \<Rightarrow> int" where
  \<comment> \<open>the conversion \<open>(time_t)d\<close>. C leaves the conversion of a value outside \<open>time_t\<close>
     undefined; the model takes the smallest \<open>time_t\<close>, as the x86-64 conversion does.\<close>
  "time_t_of d =
     (case d of
        Finite q \<Rightarrow>
          (let z = c_trunc q in if - (2 ^ 63) \<le> z \<and> z < 2 ^ 63 then z else - (2 ^ 63))
      | _ \<Rightarrow> - (2 ^ 63))"

fun time_of_ns :: "double \<Rightarrow> int" where
  \<comment> \<open>\<open>(time_t)(ns / 1e9)\<close>: the quotient is a double\<close>
  "time_of_ns (Finite r) = time_t_of (dround (r / 1000000000))"
| "time_of_ns INFINITY = time_t_of INFINITY"
| "time_of_ns NEG_INFINITY = time_t_of NEG_INFINITY"
| "time_of_ns NAN = time_t_of NAN"

definition ns_of_time :: "int \<Rightarrow> double" where
  \<comment> \<open>\<open>t * 1e9\<close> for a \<open>time_t\<close>: \<open>t\<close> is converted to a double and multiplied\<close>
  "ns_of_time t = dscale (dround (of_int t)) 1000000000"

section \<open>The buffer\<close>

datatype COLUMN_AGGREGATION =
  AGGREGATION_SUM | AGGREGATION_MIN | AGGREGATION_MAX | AGGREGATION_NONE

datatype OUTPUT_FORMAT = OUTPUT_CBUF | OUTPUT_CBUFD

record header_info =
  name :: string
  unit_label :: string
  aggregation :: COLUMN_AGGREGATION

text \<open>
  The delta log lives in a Lua table of the host, found through the integer \<open>ref\<close>: a table
  from timestamps to tables from columns to numbers. The model keeps the table in the
  field itself, as an association list with one pair for each key: \<open>None\<close> is
  \<open>LUA_NOREF\<close>. The host's table \<open>circular_buffer\<close> is taken to exist and to hold at
  \<open>ref\<close> what the buffer stored there. The array of cells, the last member of the C
  struct, is the field \<open>vals\<close>.
\<close>

type_synonym delta_table = "(int \<times> (nat \<times> double) list) list"

record circular_buffer =
  current_time :: int
  seconds_per_row :: nat
  current_row :: nat
  rows :: nat
  columns :: nat
  delta :: bool
  format :: OUTPUT_FORMAT
  ref :: "delta_table option"
  headers :: "header_info list"
  vals :: "double list"

definition get_start_time :: "circular_buffer \<Rightarrow> int" where
  \<comment> \<open>the product is computed in \<open>unsigned\<close>\<close>
  "get_start_time cb =
     current_time cb -
       int (uint32_of (int (seconds_per_row cb) * int (uint32_of (int (rows cb) - 1))))"

subsection \<open>Clearing rows\<close>

fun memcpy :: "double list \<Rightarrow> nat \<Rightarrow> nat \<Rightarrow> nat \<Rightarrow> double list" where
  \<comment> \<open>\<open>memcpy(v + dst, v + src, sizeof(double) * n)\<close> on regions that do not overlap\<close>
  "memcpy vs dst src 0 = vs"
| "memcpy vs dst src (Suc n) = (memcpy vs dst src n)[dst + n := vs ! (src + n)]"

definition set_row_nan :: "double list \<Rightarrow> nat \<Rightarrow> nat \<Rightarrow> double list" where
  \<comment> \<open>\<open>for (c = 0; c < columns; ++c) vals[base + c] = NAN\<close>\<close>
  "set_row_nan vs base cols = fold (\<lambda>c v. v[base + c := NAN]) [0..<cols] vs"

function copy_cleared_loop ::
  "nat \<Rightarrow> nat \<Rightarrow> double list \<Rightarrow> nat \<Rightarrow> nat \<Rightarrow> double list" where
  \<comment> \<open>the \<open>while\<close> loop of \<open>copy_cleared_row\<close>; \<open>pool\<close> starts at 1 and only grows, and
     the test \<open>0 < pool\<close> is what makes the recursion total\<close>
  "copy_cleared_loop cols cleared vs rws pool =
     (if 0 < rws \<and> 0 < pool then
        let ask = (if rws \<ge> pool then pool else rws)
        in copy_cleared_loop cols cleared
             (memcpy vs (cleared + pool * cols) cleared (cols * ask))
             (rws - ask) (pool + ask)
      else vs)"
  by pat_completeness auto
termination
  by (relation "measure (\<lambda>(cols, cleared, vs, rws, pool). rws)") auto

declare copy_cleared_loop.simps [simp del]

definition copy_cleared_row :: "circular_buffer \<Rightarrow> nat \<Rightarrow> nat \<Rightarrow> circular_buffer" where
  \<comment> \<open>\<open>cleared\<close> is the offset in \<open>vals\<close> of the row already cleared\<close>
  "copy_cleared_row cb cleared rws =
     cb\<lparr>vals := copy_cleared_loop (columns cb) cleared (vals cb) rws 1\<rparr>"

definition clear_rows :: "circular_buffer \<Rightarrow> nat \<Rightarrow> circular_buffer" where
  "clear_rows cb num_rows0 =
     (let num_rows = (if num_rows0 \<ge> rows cb then rows cb else num_rows0);
          row1 = uint32_of (int (current_row cb) + 1);
          row = (if row1 \<ge> rows cb then 0 else row1);
          cleared = uint32_of (int row * int (columns cb));
          cb1 = cb\<lparr>vals := set_row_nan (vals cb) cleared (columns cb)\<rparr>
      in if uint32_of (int row + int num_rows - 1) \<ge> rows cb then
           let cb2 = copy_cleared_row cb1 cleared (uint32_of (int (rows cb) - int row - 1));
               cb3 = cb2\<lparr>vals := set_row_nan (vals cb2) 0 (columns cb)\<rparr>
           in copy_cleared_row cb3 0 (uint32_of (int row + int num_rows - 1 - int (rows cb)))
         else copy_cleared_row cb1 cleared (uint32_of (int num_rows - 1)))"

subsection \<open>Resolving a timestamp to a row\<close>

definition check_row :: "circular_buffer \<Rightarrow> double \<Rightarrow> bool \<Rightarrow> int \<times> circular_buffer" where
  \<comment> \<open>the row, or -1, and the buffer as the call leaves it\<close>
  "check_row cb ns advance =
     (let t0 = time_of_ns ns;
          t = t0 - c_mod t0 (int (seconds_per_row cb));
          current_row' = int32_of (c_div (current_time cb) (int (seconds_per_row cb)));
          requested_row = int32_of (c_div t (int (seconds_per_row cb)));
          row_delta = int32_of (requested_row - current_row');
          row = int32_of (int (uint32_of requested_row mod rows cb))
      in if row_delta > 0 \<and> advance then
           (row, (clear_rows cb (uint32_of row_delta))
                   \<lparr>current_time := t, current_row := uint32_of row\<rparr>)
         else if requested_row > current_row' \<or> c_abs row_delta \<ge> int32_of (int (rows cb)) then
           (- 1, cb)
         else (row, cb))"


section \<open>The operations of the Lua module\<close>

text \<open>
  A failure of an operation is a value. \<open>Arg_error\<close> is what \<open>luaL_argcheck\<close> and the
  \<open>luaL_check*\<close> functions raise (the position of the argument and the message),
  \<open>Runtime_error\<close> is \<open>luaL_error\<close> and \<open>lua_error\<close>. \<open>Out_of_bounds\<close> stands for an
  access outside the array of cells, the behaviour of which C leaves undefined.
  An operation returns its result together with the buffer as the call leaves it, also
  when it fails: the buffer is a Lua userdata that the caller keeps.
\<close>

datatype failure = Arg_error nat string | Runtime_error string | Out_of_bounds

text \<open>
  An argument of a call: not passed (or nil), of the wrong type, or the value that the
  Lua auxiliary library hands to C.
\<close>

datatype 'a lua_arg = Absent | Ill_typed | Given 'a

fun luaL_checknumber :: "double lua_arg \<Rightarrow> nat \<Rightarrow> failure + double" where
  "luaL_checknumber (Given d) narg = Inr d"
| "luaL_checknumber _ narg = Inl (Arg_error narg ''number expected'')"

fun luaL_optnumber :: "double lua_arg \<Rightarrow> nat \<Rightarrow> double \<Rightarrow> failure + double" where
  "luaL_optnumber Absent narg def = Inr def"
| "luaL_optnumber a narg def = luaL_checknumber a narg"

fun luaL_checkint :: "int lua_arg \<Rightarrow> nat \<Rightarrow> failure + int" where
  "luaL_checkint (Given i) narg = Inr i"
| "luaL_checkint _ narg = Inl (Arg_error narg ''number expected'')"

fun luaL_checkstring :: "string lua_arg \<Rightarrow> nat \<Rightarrow> failure + string" where
  "luaL_checkstring (Given s) narg = Inr s"
| "luaL_checkstring _ narg = Inl (Arg_error narg ''string expected'')"

fun luaL_optstring :: "string lua_arg \<Rightarrow> nat \<Rightarrow> string \<Rightarrow> failure + string" where
  "luaL_optstring Absent narg def = Inr def"
| "luaL_optstring a narg def = luaL_checkstring a narg"

definition check_column :: "circular_buffer \<Rightarrow> int lua_arg \<Rightarrow> nat \<Rightarrow> failure + nat" where
  \<comment> \<open>the zero-based column\<close>
  "check_column cb a arg =
     (case luaL_checkint a arg of
        Inl e \<Rightarrow> Inl e
      | Inr i \<Rightarrow>
          let column = uint32_of i
          in if 1 \<le> column \<and> column \<le> columns cb then Inr (uint32_of (int column - 1))
             else Inl (Arg_error arg ''column out of range''))"

definition cb_add_delta :: "circular_buffer \<Rightarrow> double \<Rightarrow> nat \<Rightarrow> double \<Rightarrow> circular_buffer" where
  "cb_add_delta cb ns column value =
     (let t0 = time_of_ns ns;
          t = t0 - c_mod t0 (int (seconds_per_row cb));
          tbl = (case ref cb of None \<Rightarrow> [] | Some m \<Rightarrow> m);
          key = int32_of t;
          delta_row = (case map_of tbl key of None \<Rightarrow> [] | Some r \<Rightarrow> r);
          old = (case map_of delta_row column of None \<Rightarrow> Finite 0 | Some d \<Rightarrow> d)
      in cb\<lparr>ref :=
             Some (AList.update key (AList.update column (dadd value old) delta_row) tbl)\<rparr>)"

definition cell_index :: "circular_buffer \<Rightarrow> int \<Rightarrow> nat \<Rightarrow> nat" where
  \<comment> \<open>\<open>(row * cb->columns) + column\<close>, computed in \<open>unsigned\<close>\<close>
  "cell_index cb row column = uint32_of (row * int (columns cb) + int column)"

definition cb_add ::
  "circular_buffer \<Rightarrow> double lua_arg \<Rightarrow> int lua_arg \<Rightarrow> double lua_arg \<Rightarrow>
     (failure + double option) \<times> circular_buffer" where
  "cb_add cb ns_arg col_arg val_arg =
     (case luaL_checknumber ns_arg 2 of
        Inl e \<Rightarrow> (Inl e, cb)
      | Inr ns \<Rightarrow>
     (case check_row cb ns True of (row, cb1) \<Rightarrow>
     (case check_column cb1 col_arg 3 of
        Inl e \<Rightarrow> (Inl e, cb1)
      | Inr column \<Rightarrow>
     (case luaL_checknumber val_arg 4 of
        Inl e \<Rightarrow> (Inl e, cb1)
      | Inr value \<Rightarrow>
          if row \<noteq> - 1 then
            let i = int32_of (int (cell_index cb1 row column))
            in if 0 \<le> i \<and> i < int (length (vals cb1)) then
                 let new = (if isnan (vals cb1 ! nat i) then value
                            else dadd (vals cb1 ! nat i) value);
                     cb2 = cb1\<lparr>vals := (vals cb1)[nat i := new]\<rparr>
                 in if delta cb2 \<and> dnonzero value then
                      (Inr (Some new),
                       cb_add_delta cb2 ns column
                         (if aggregation (headers cb2 ! column) \<noteq> AGGREGATION_SUM then new
                          else value))
                    else (Inr (Some new), cb2)
               else (Inl Out_of_bounds, cb1)
          else (Inr None, cb1)))))"

definition cb_get ::
  "circular_buffer \<Rightarrow> double lua_arg \<Rightarrow> int lua_arg \<Rightarrow>
     (failure + double option) \<times> circular_buffer" where
  "cb_get cb ns_arg col_arg =
     (case luaL_checknumber ns_arg 2 of
        Inl e \<Rightarrow> (Inl e, cb)
      | Inr ns \<Rightarrow>
     (case check_row cb ns False of (row, cb1) \<Rightarrow>
     (case check_column cb1 col_arg 3 of
        Inl e \<Rightarrow> (Inl e, cb1)
      | Inr column \<Rightarrow>
          if row \<noteq> - 1 then
            let i = cell_index cb1 row column
            in if i < length (vals cb1) then (Inr (Some (vals cb1 ! i)), cb1)
               else (Inl Out_of_bounds, cb1)
          else (Inr None, cb1))))"

definition cb_set ::
  "circular_buffer \<Rightarrow> double lua_arg \<Rightarrow> int lua_arg \<Rightarrow> double lua_arg \<Rightarrow>
     (failure + double option) \<times> circular_buffer" where
  "cb_set cb ns_arg col_arg val_arg =
     (case luaL_checknumber ns_arg 2 of
        Inl e \<Rightarrow> (Inl e, cb)
      | Inr ns \<Rightarrow>
     (case check_row cb ns True of (row, cb1) \<Rightarrow>
     (case check_column cb1 col_arg 3 of
        Inl e \<Rightarrow> (Inl e, cb1)
      | Inr column \<Rightarrow>
     (case luaL_checknumber val_arg 4 of
        Inl e \<Rightarrow> (Inl e, cb1)
      | Inr value \<Rightarrow>
          if row \<noteq> - 1 then
            let i = int32_of (int (cell_index cb1 row column))
            in if 0 \<le> i \<and> i < int (length (vals cb1)) then
                 let old = vals cb1 ! nat i;
                     cb2 = cb1\<lparr>vals := (vals cb1)[nat i := value]\<rparr>
                 in (case aggregation (headers cb1 ! column) of
                       AGGREGATION_MIN \<Rightarrow>
                         if isnan old \<or> dless value old then
                           (Inr (Some value),
                            if delta cb2 then cb_add_delta cb2 ns column value else cb2)
                         else (Inr (Some old), cb1)
                     | AGGREGATION_MAX \<Rightarrow>
                         if isnan old \<or> dgreater value old then
                           (Inr (Some value),
                            if delta cb2 then cb_add_delta cb2 ns column value else cb2)
                         else (Inr (Some old), cb1)
                     | _ \<Rightarrow>
                         (Inr (Some value),
                          if delta cb2 then
                            cb_add_delta cb2 ns column
                              (if \<not> isnan old \<and> old \<noteq> INFINITY \<and> old \<noteq> NEG_INFINITY
                               then dsub value old else value)
                          else cb2))
               else (Inl Out_of_bounds, cb1)
          else (Inr None, cb1)))))"


subsection \<open>Column headers\<close>

definition isalnum :: "char \<Rightarrow> bool" where
  \<comment> \<open>\<open>isalnum\<close> in the C locale\<close>
  "isalnum c =
     (let n = (of_char c :: nat)
      in (48 \<le> n \<and> n \<le> 57) \<or> (65 \<le> n \<and> n \<le> 90) \<or> (97 \<le> n \<and> n \<le> 122))"

definition c_string :: "string \<Rightarrow> string" where
  \<comment> \<open>what C reads of a Lua string: the bytes before the first zero byte\<close>
  "c_string s = takeWhile (\<lambda>c. of_char c \<noteq> (0::nat)) s"

definition strncpy :: "string \<Rightarrow> nat \<Rightarrow> string" where
  \<comment> \<open>the string left in a zeroed field one byte longer than \<open>n\<close> by \<open>strncpy(field, s, n)\<close>\<close>
  "strncpy s n = take n (c_string s)"

definition luaL_checkoption ::
  "string lua_arg \<Rightarrow> nat \<Rightarrow> string option \<Rightarrow> (string \<times> 'a) list \<Rightarrow> failure + 'a" where
  \<comment> \<open>the list pairs each keyword with the value that its position stands for\<close>
  "luaL_checkoption a narg def lst =
     (case (case a of Absent \<Rightarrow> (case def of Some d \<Rightarrow> Inr d
                                  | None \<Rightarrow> luaL_checkstring a narg)
            | _ \<Rightarrow> luaL_checkstring a narg) of
        Inl e \<Rightarrow> Inl e
      | Inr s \<Rightarrow>
          (case map_of lst (c_string s) of
             Some v \<Rightarrow> Inr v
           | None \<Rightarrow> Inl (Arg_error narg ''invalid option'')))"

definition column_aggregation_methods :: "(string \<times> COLUMN_AGGREGATION) list" where
  \<comment> \<open>\<open>luaL_checkoption\<close> returns the position of the keyword, which is stored as the
     aggregation: \<open>''none''\<close> is stored as 3, for which \<open>AGGREGATION_NONE\<close> stands here\<close>
  "column_aggregation_methods =
     [(''sum'', AGGREGATION_SUM), (''min'', AGGREGATION_MIN),
      (''max'', AGGREGATION_MAX), (''none'', AGGREGATION_NONE)]"

definition default_unit :: string where
  "default_unit = ''count''"

definition COLUMN_NAME_SIZE :: nat where
  "COLUMN_NAME_SIZE = 16"

definition UNIT_LABEL_SIZE :: nat where
  "UNIT_LABEL_SIZE = 8"

definition cb_set_header ::
  "circular_buffer \<Rightarrow> int lua_arg \<Rightarrow> string lua_arg \<Rightarrow> string lua_arg \<Rightarrow> string lua_arg \<Rightarrow>
     (failure + int) \<times> circular_buffer" where
  "cb_set_header cb col_arg name_arg unit_arg agg_arg =
     (case check_column cb col_arg 2 of
        Inl e \<Rightarrow> (Inl e, cb)
      | Inr column \<Rightarrow>
     (case luaL_checkstring name_arg 3 of
        Inl e \<Rightarrow> (Inl e, cb)
      | Inr nm \<Rightarrow>
     (case luaL_optstring unit_arg 4 default_unit of
        Inl e \<Rightarrow> (Inl e, cb)
      | Inr un \<Rightarrow>
     (case luaL_checkoption agg_arg 5 (Some ''sum'') column_aggregation_methods of
        Inl e \<Rightarrow> (Inl e, cb)
      | Inr agg \<Rightarrow>
          let n = map (\<lambda>c. if \<not> isalnum c then CHR ''_'' else c)
                    (strncpy nm (COLUMN_NAME_SIZE - 1));
              u = map (\<lambda>c. if c \<noteq> CHR ''/'' \<and> c \<noteq> CHR ''*'' \<and> \<not> isalnum c then CHR ''_'' else c)
                    (strncpy un (UNIT_LABEL_SIZE - 1))
          in (Inr (int32_of (int column + 1)),
              cb\<lparr>headers := (headers cb)
                    [column := \<lparr>name = n, unit_label = u, aggregation = agg\<rparr>]\<rparr>)))))"

subsection \<open>Range queries\<close>

partial_function (option) range_loop ::
  "circular_buffer \<Rightarrow> nat \<Rightarrow> int \<Rightarrow> int \<Rightarrow> double list \<Rightarrow> (failure + double list) option" where
  \<comment> \<open>the \<open>do ... while (row++ != end_row)\<close> loop of \<open>cb_get_range\<close>; the list is the Lua
     table filled at 1, 2, ...; \<open>None\<close> is a loop that never ends\<close>
  "range_loop cb column end_row row acc =
     (let row1 = (if row = int32_of (int (rows cb)) then 0 else row);
          i = cell_index cb row1 column
      in if i < length (vals cb) then
           if row1 \<noteq> end_row
           then range_loop cb column end_row (int32_of (row1 + 1)) (acc @ [vals cb ! i])
           else Some (Inr (acc @ [vals cb ! i]))
         else Some (Inl Out_of_bounds))"

declare range_loop.simps [code]

definition cb_get_range ::
  "circular_buffer \<Rightarrow> int lua_arg \<Rightarrow> double lua_arg \<Rightarrow> double lua_arg \<Rightarrow>
     ((failure + double list option) \<times> circular_buffer) option" where
  "cb_get_range cb col_arg start_arg end_arg =
     (case check_column cb col_arg 2 of
        Inl e \<Rightarrow> Some (Inl e, cb)
      | Inr column \<Rightarrow>
     (case luaL_optnumber start_arg 3 (ns_of_time (get_start_time cb)) of
        Inl e \<Rightarrow> Some (Inl e, cb)
      | Inr start_ns \<Rightarrow>
     (case luaL_optnumber end_arg 4 (ns_of_time (current_time cb)) of
        Inl e \<Rightarrow> Some (Inl e, cb)
      | Inr end_ns \<Rightarrow>
          if \<not> dgreater_eq end_ns start_ns then
            Some (Inl (Arg_error 4 ''end must be >= start''), cb)
          else
            (case check_row cb start_ns False of (start_row, cb1) \<Rightarrow>
            (case check_row cb1 end_ns False of (end_row, cb2) \<Rightarrow>
               if - 1 = start_row \<or> - 1 = end_row then Some (Inr None, cb2)
               else
                 (case range_loop cb2 column end_row start_row [] of
                    None \<Rightarrow> None
                  | Some (Inl e) \<Rightarrow> Some (Inl e, cb2)
                  | Some (Inr xs) \<Rightarrow> Some (Inr (Some xs), cb2)))))))"

subsection \<open>Time, configuration and output format\<close>

definition cb_current_time :: "circular_buffer \<Rightarrow> double" where
  "cb_current_time cb = ns_of_time (current_time cb)"

definition cb_get_configuration :: "circular_buffer \<Rightarrow> nat \<times> nat \<times> nat" where
  "cb_get_configuration cb = (rows cb, columns cb, seconds_per_row cb)"

definition output_types :: "(string \<times> OUTPUT_FORMAT) list" where
  "output_types = [(''cbuf'', OUTPUT_CBUF), (''cbufd'', OUTPUT_CBUFD)]"

definition cb_format ::
  "circular_buffer \<Rightarrow> string lua_arg \<Rightarrow> (failure + unit) \<times> circular_buffer" where
  "cb_format cb fmt_arg =
     (case luaL_checkoption fmt_arg 2 None output_types of
        Inl e \<Rightarrow> (Inl e, cb)
      | Inr f \<Rightarrow> (Inr (), cb\<lparr>format := f\<rparr>))"

subsection \<open>Restoring a buffer from a string\<close>

text \<open>
  \<open>fromstring\<close> reads its argument with \<open>strtoll\<close>, \<open>strtoul\<close> and \<open>strtod\<close>. The model takes
  what \<open>strtoll\<close> and \<open>strtoul\<close> read, the two integers in front, and the rest of the string
  as the list of what \<open>strtod\<close> meets after white space: a number, which it converts
  and passes, or text that is no number, at which it converts nothing, returns 0 and
  stays.
\<close>

datatype token = Number double | Unparsed

fun read_double :: "token list \<Rightarrow> (double \<times> token list) option" where
  \<comment> \<open>\<open>None\<close> is the return value 0: the end of the string\<close>
  "read_double [] = None"
| "read_double (Number v # p) = Some (v, p)"
| "read_double (Unparsed # p) = Some (Finite 0, Unparsed # p)"

function read_values ::
  "double list \<Rightarrow> nat \<Rightarrow> nat \<Rightarrow> token list \<Rightarrow> nat \<times> double list \<times> token list" where
  \<comment> \<open>\<open>while (pos < len && read_double(&p, &value)) cb->values[pos++] = value\<close>\<close>
  "read_values vs pos len p =
     (if pos < len then
        (case read_double p of
           None \<Rightarrow> (pos, vs, p)
         | Some (value, p') \<Rightarrow> read_values (vs[pos := value]) (Suc pos) len p')
      else (pos, vs, p))"
  by pat_completeness auto
termination
  by (relation "measure (\<lambda>(vs, pos, len, p). len - pos)") auto

declare read_values.simps [simp del]

partial_function (option) delta_loop ::
  "circular_buffer \<Rightarrow> double \<Rightarrow> nat \<Rightarrow> token list \<Rightarrow> (nat \<times> circular_buffer) option" where
  \<comment> \<open>the \<open>while\<close> loop of \<open>cb_delta_fromstring\<close>, which reads to the end of the string;
     \<open>None\<close> is a loop that never ends\<close>
  "delta_loop cb ns pos p =
     (case read_double p of
        None \<Rightarrow> Some (pos, cb)
      | Some (value, p') \<Rightarrow>
          delta_loop (if pos = 0 then cb else cb_add_delta cb ns (pos - 1) value)
            (if pos = 0 then dscale value 1000000000 else ns)
            (if pos = columns cb then 0 else pos + 1) p')"

declare delta_loop.simps [code]

definition cb_delta_fromstring ::
  "circular_buffer \<Rightarrow> token list \<Rightarrow> ((failure + token list) \<times> circular_buffer) option" where
  \<comment> \<open>the rest of the string, which is empty, and the buffer\<close>
  "cb_delta_fromstring cb p =
     (case delta_loop cb (Finite 0) 0 p of
        None \<Rightarrow> None
      | Some (pos, cb') \<Rightarrow>
          if pos \<noteq> 0 then Some (Inl (Runtime_error ''fromstring() invalid delta''), cb')
          else Some (Inr [], cb'))"

definition cb_fromstring ::
  "circular_buffer \<Rightarrow> int \<Rightarrow> nat \<Rightarrow> token list \<Rightarrow>
     ((failure + unit) \<times> circular_buffer) option" where
  "cb_fromstring cb time_read row_read p =
     (let cb1 = cb\<lparr>current_time := time_read, current_row := uint32_of (int row_read)\<rparr>;
          len = uint32_of (int (rows cb1) * int (columns cb1))
      in (case read_values (vals cb1) 0 len p of (pos, vs, p1) \<Rightarrow>
            let cb2 = cb1\<lparr>vals := vs\<rparr>
            in if pos = len then
                 (case (if delta cb2 then cb_delta_fromstring cb2 p1 else Some (Inr p1, cb2)) of
                    None \<Rightarrow> None
                  | Some (Inl e, cb3) \<Rightarrow> Some (Inl e, cb3)
                  | Some (Inr p2, cb3) \<Rightarrow>
                      (case read_double p2 of
                         Some _ \<Rightarrow> Some (Inl (Runtime_error ''fromstring() too many values''), cb3)
                       | None \<Rightarrow> Some (Inr (), cb3)))
               else Some (Inl (Runtime_error ''fromstring() too few values''), cb2)))"

subsection \<open>Construction\<close>

fun decimal :: "nat \<Rightarrow> string" where
  \<comment> \<open>\<open>%d\<close>\<close>
  "decimal n =
     (if n < 10 then [char_of (48 + n)] else decimal (n div 10) @ [char_of (48 + n mod 10)])"

declare decimal.simps [simp del]

definition cb_new ::
  "(nat \<Rightarrow> double) \<Rightarrow> int \<Rightarrow> int \<Rightarrow> int \<Rightarrow> bool \<Rightarrow> failure + circular_buffer" where
  \<comment> \<open>\<open>mem\<close> is what the fresh userdata holds where the cells will be; the three sizes are
     the \<open>int\<close>s that \<open>luaL_checkint\<close> returned\<close>
  "cb_new mem rows' columns' seconds_per_row' delta' =
     (if \<not> 1 < rows' then Inl (Arg_error 1 ''rows must be > 1'')
      else if \<not> 0 < columns' then Inl (Arg_error 2 ''columns must be > 0'')
      else if \<not> 0 < seconds_per_row' then Inl (Arg_error 3 ''seconds_per_row is out of range'')
      else
        let cb = \<lparr>current_time = int32_of (seconds_per_row' * (rows' - 1)),
                  seconds_per_row = uint32_of seconds_per_row',
                  current_row = uint32_of (int32_of (rows' - 1)),
                  rows = uint32_of rows',
                  columns = uint32_of columns',
                  delta = delta',
                  format = OUTPUT_CBUF,
                  ref = None,
                  headers =
                    map (\<lambda>column_idx.
                          \<lparr>name = take (COLUMN_NAME_SIZE - 1) (''Column_'' @ decimal (column_idx + 1)),
                           unit_label = strncpy default_unit (UNIT_LABEL_SIZE - 1),
                           aggregation = AGGREGATION_SUM\<rparr>)
                      [0..<uint32_of columns'],
                  vals = map mem [0..<nat (rows' * columns')]\<rparr>
        in Inr (clear_rows cb (uint32_of rows')))"


section \<open>Vocabulary of the properties\<close>

text \<open>
  What \<open>cb_new\<close> establishes and no operation changes: the sizes are those of a C \<open>int\<close>
  greater than its lower bound, the cells and headers have the lengths allocated for
  them, and the number of cells and the span of the window in seconds fit an \<open>int\<close>.
\<close>

definition valid_buffer :: "circular_buffer \<Rightarrow> bool" where
  "valid_buffer cb \<longleftrightarrow>
     1 < rows cb \<and> 0 < columns cb \<and> 0 < seconds_per_row cb \<and>
     rows cb * columns cb < 2 ^ 31 \<and>
     seconds_per_row cb * (rows cb - 1) < 2 ^ 31 \<and>
     current_row cb < 2 ^ 32 \<and>
     length (vals cb) = rows cb * columns cb \<and>
     length (headers cb) = columns cb"

definition cursor_inv :: "circular_buffer \<Rightarrow> bool" where
  \<comment> \<open>\<open>0 <= current_row < rows\<close> and \<open>current_time % seconds_per_row == 0\<close>\<close>
  "cursor_inv cb \<longleftrightarrow>
     current_row cb < rows cb \<and> c_mod (current_time cb) (int (seconds_per_row cb)) = 0"

definition aligned_time :: "circular_buffer \<Rightarrow> double \<Rightarrow> int" where
  \<comment> \<open>the timestamp in whole seconds, row-aligned: \<open>t\<close> of \<open>check_row\<close>\<close>
  "aligned_time cb ns =
     time_of_ns ns - c_mod (time_of_ns ns) (int (seconds_per_row cb))"

definition row_number :: "circular_buffer \<Rightarrow> int \<Rightarrow> int" where
  \<comment> \<open>the row number of a time, as \<open>check_row\<close> computes it\<close>
  "row_number cb t = int32_of (c_div t (int (seconds_per_row cb)))"

definition next_row :: "circular_buffer \<Rightarrow> nat" where
  \<comment> \<open>the physical row that follows the current one\<close>
  "next_row cb = (if current_row cb + 1 \<ge> rows cb then 0 else current_row cb + 1)"

fun naive_clear :: "double list \<Rightarrow> nat \<Rightarrow> nat \<Rightarrow> nat \<Rightarrow> nat \<Rightarrow> double list" where
  \<comment> \<open>clears \<open>n\<close> rows one after the other from \<open>row\<close> on, back to row 0 after the last\<close>
  "naive_clear vs cols rws row 0 = vs"
| "naive_clear vs cols rws row (Suc n) =
     naive_clear (set_row_nan vs (row * cols) cols) cols rws
       (if row + 1 \<ge> rws then 0 else row + 1) n"

definition naive_clear_rows :: "circular_buffer \<Rightarrow> nat \<Rightarrow> circular_buffer" where
  \<comment> \<open>the clearing of the window advance as the specification words it\<close>
  "naive_clear_rows cb k =
     cb\<lparr>vals := naive_clear (vals cb) (columns cb) (rows cb) (next_row cb) (min k (rows cb))\<rparr>"

definition delta_entry :: "circular_buffer \<Rightarrow> int \<Rightarrow> nat \<Rightarrow> double option" where
  \<comment> \<open>the entry of the delta log for a timestamp and a column\<close>
  "delta_entry cb t column =
     (case ref cb of
        None \<Rightarrow> None
      | Some tbl \<Rightarrow> (case map_of tbl t of None \<Rightarrow> None | Some r \<Rightarrow> map_of r column))"

section \<open>Example buffers\<close>

definition example_grid :: circular_buffer where
  "example_grid =
     \<lparr>current_time = 6, seconds_per_row = 1, current_row = 4, rows = 7, columns = 2,
      delta = False, format = OUTPUT_CBUF, ref = None,
      headers =
        [\<lparr>name = ''Column_1'', unit_label = ''count'', aggregation = AGGREGATION_SUM\<rparr>,
         \<lparr>name = ''Column_2'', unit_label = ''count'', aggregation = AGGREGATION_SUM\<rparr>],
      vals =
        [Finite 0, Finite 1, Finite 2, Finite 3, Finite 4, Finite 5, Finite 6,
         Finite 7, Finite 8, Finite 9, Finite 10, Finite 11, Finite 12, Finite 13]\<rparr>"

definition ring_cells :: "circular_buffer \<Rightarrow> nat \<Rightarrow> nat \<Rightarrow> nat \<Rightarrow> double list" where
  \<comment> \<open>the cells of a column in \<open>n\<close> consecutive physical rows from \<open>row\<close> on, row 0 following
     the last row\<close>
  "ring_cells cb column row n =
     map (\<lambda>k. vals cb ! (((row + k) mod rows cb) * columns cb + column)) [0..<n]"


definition row_delta :: "circular_buffer \<Rightarrow> double \<Rightarrow> int" where
  \<comment> \<open>the difference of the requested and the current row number: \<open>row_delta\<close> of
     \<open>check_row\<close>\<close>
  "row_delta cb ns =
     int32_of (row_number cb (aligned_time cb ns) - row_number cb (current_time cb))"

definition fresh_3x1 :: circular_buffer where
  \<comment> \<open>what \<open>circular_buffer.new(3, 1, 1)\<close> returns\<close>
  "fresh_3x1 =
     \<lparr>current_time = 2, seconds_per_row = 1, current_row = 2, rows = 3, columns = 1,
      delta = False, format = OUTPUT_CBUF, ref = None,
      headers = [\<lparr>name = ''Column_1'', unit_label = ''count'', aggregation = AGGREGATION_SUM\<rparr>],
      vals = [NAN, NAN, NAN]\<rparr>"

definition restored_at_0 :: circular_buffer where
  \<comment> \<open>\<open>fresh_3x1\<close> after \<open>fromstring("0 0 10 20 30")\<close>\<close>
  "restored_at_0 = fresh_3x1\<lparr>current_time := 0, current_row := 0,
     vals := [Finite 10, Finite 20, Finite 30]\<rparr>"

definition after_add_5 :: circular_buffer where
  \<comment> \<open>\<open>fresh_3x1\<close> after \<open>add(0, 1, 5)\<close>\<close>
  "after_add_5 = fresh_3x1\<lparr>vals := [Finite 5, NAN, NAN]\<rparr>"

definition after_add_5_7 :: circular_buffer where
  \<comment> \<open>\<open>after_add_5\<close> after \<open>add(2e9, 1, 7)\<close>\<close>
  "after_add_5_7 = fresh_3x1\<lparr>vals := [Finite 5, NAN, Finite 7]\<rparr>"

definition advanced_to_7 :: circular_buffer where
  \<comment> \<open>\<open>after_add_5_7\<close> after window advance to second 7: every row cleared\<close>
  "advanced_to_7 = fresh_3x1\<lparr>current_time := 7, current_row := 1\<rparr>"

definition delta_3x1 :: circular_buffer where
  \<comment> \<open>what \<open>circular_buffer.new(3, 1, 1, true)\<close> returns\<close>
  "delta_3x1 = fresh_3x1\<lparr>delta := True\<rparr>"

definition after_add_3 :: circular_buffer where
  \<comment> \<open>\<open>delta_3x1\<close> after \<open>add(0, 1, 3)\<close>\<close>
  "after_add_3 = delta_3x1\<lparr>ref := Some [(0, [(0, Finite 3)])], vals := [Finite 3, NAN, NAN]\<rparr>"

definition after_add_3_4 :: circular_buffer where
  \<comment> \<open>\<open>after_add_3\<close> after \<open>add(0, 1, 4)\<close>\<close>
  "after_add_3_4 = delta_3x1\<lparr>ref := Some [(0, [(0, Finite 7)])], vals := [Finite 7, NAN, NAN]\<rparr>"

definition max_column_5 :: circular_buffer where
  \<comment> \<open>a buffer with delta tracking, a column of aggregation max, the cell of second 0 at 5
     and 5 in the delta log\<close>
  "max_column_5 = delta_3x1
     \<lparr>ref := Some [(0, [(0, Finite 5)])],
      headers := [\<lparr>name = ''Column_1'', unit_label = ''count'', aggregation = AGGREGATION_MAX\<rparr>],
      vals := [Finite 5, NAN, NAN]\<rparr>"

definition logged :: "circular_buffer \<Rightarrow> int \<Rightarrow> nat \<Rightarrow> double" where
  \<comment> \<open>what \<open>lua_tonumber\<close> reads at an entry of the delta log: 0 where there is none\<close>
  "logged cb t column = (case delta_entry cb t column of None \<Rightarrow> Finite 0 | Some d \<Rightarrow> d)"



definition replay_step :: "nat \<Rightarrow> double list \<Rightarrow> nat \<Rightarrow> circular_buffer \<Rightarrow> circular_buffer" where
  \<comment> \<open>the value at position \<open>k\<close> of the values that follow the grid, in groups of a
     timestamp in seconds and one delta for each of the \<open>cols\<close> columns: a timestamp
     records nothing, a delta is added to the log at the timestamp of its group\<close>
  "replay_step cols ds k b =
     (if k mod (cols + 1) = 0 then b
      else cb_add_delta b (dscale (ds ! (k - k mod (cols + 1))) 1000000000)
             (k mod (cols + 1) - 1) (ds ! k))"

definition replay_deltas :: "circular_buffer \<Rightarrow> double list \<Rightarrow> circular_buffer" where
  "replay_deltas cb ds = fold (replay_step (columns cb) ds) [0..<length ds] cb"

definition same_cursor :: "circular_buffer \<Rightarrow> circular_buffer \<Rightarrow> bool" where
  \<comment> \<open>the same sizes and the same current time and row\<close>
  "same_cursor a b \<longleftrightarrow>
     current_time a = current_time b \<and> current_row a = current_row b \<and>
     seconds_per_row a = seconds_per_row b \<and> rows a = rows b \<and> columns a = columns b \<and>
     length (vals a) = length (vals b) \<and> length (headers a) = length (headers b)"

definition new_3x1_2s :: circular_buffer where
  \<comment> \<open>what \<open>circular_buffer.new(3, 1, 2)\<close> returns\<close>
  "new_3x1_2s = fresh_3x1\<lparr>current_time := 4, seconds_per_row := 2\<rparr>"

definition restored_5_7 :: circular_buffer where
  \<comment> \<open>\<open>new_3x1_2s\<close> after \<open>fromstring("5 7 10 20 30")\<close>\<close>
  "restored_5_7 = new_3x1_2s\<lparr>current_time := 5, current_row := 7,
     vals := [Finite 10, Finite 20, Finite 30]\<rparr>"

section \<open>Facts about the model\<close>

subsection \<open>Conversions\<close>

lemma uint32_of_nat: "x < 2 ^ 32 \<Longrightarrow> uint32_of (int x) = x"
  by (simp add: uint32_of_def)

lemma uint32_of_id: "0 \<le> x \<Longrightarrow> x < 2 ^ 32 \<Longrightarrow> uint32_of x = nat x"
  by (simp add: uint32_of_def)

lemma int32_of_id: "- (2 ^ 31) \<le> x \<Longrightarrow> x < 2 ^ 31 \<Longrightarrow> int32_of x = x"
  by (simp add: int32_of_def)

lemma int32_of_range: "- (2 ^ 31) \<le> int32_of x \<and> int32_of x < 2 ^ 31"
  unfolding int32_of_def
  using pos_mod_bound [of "2 ^ 32" "x + 2 ^ 31"] pos_mod_sign [of "2 ^ 32" "x + 2 ^ 31"]
  by simp

subsection \<open>Clearing rows\<close>

lemma length_memcpy [simp]: "length (memcpy vs dst src n) = length vs"
  by (induction n) simp_all

lemma nth_memcpy:
  "i < length vs \<Longrightarrow>
   memcpy vs dst src n ! i = (if dst \<le> i \<and> i < dst + n then vs ! (src + (i - dst)) else vs ! i)"
proof (induction n)
  case 0
  then show ?case by auto
next
  case (Suc n)
  show ?case
  proof (cases "i = dst + n")
    case True
    then show ?thesis using Suc.prems by simp
  next
    case False
    then show ?thesis using Suc by (auto simp: nth_list_update)
  qed
qed

lemma length_fold_nan:
  "length (fold (\<lambda>c v. v[base + c := NAN]) [0..<cols] vs) = length vs"
  by (induction cols) simp_all

lemma length_set_row_nan [simp]: "length (set_row_nan vs base cols) = length vs"
  unfolding set_row_nan_def by (rule length_fold_nan)

lemma nth_set_row_nan:
  "i < length vs \<Longrightarrow>
   set_row_nan vs base cols ! i = (if base \<le> i \<and> i < base + cols then NAN else vs ! i)"
  unfolding set_row_nan_def
proof (induction cols)
  case 0
  then show ?case by auto
next
  case (Suc cols)
  show ?case
  proof (cases "i = base + cols")
    case True
    then show ?thesis using Suc.prems by (simp add: length_fold_nan)
  next
    case False
    then show ?thesis using Suc by (auto simp: nth_list_update)
  qed
qed

lemma length_copy_cleared_loop [simp]:
  "length (copy_cleared_loop cols cleared vs rws pool) = length vs"
  by (induction cols cleared vs rws pool rule: copy_cleared_loop.induct)
     (subst copy_cleared_loop.simps, simp add: Let_def)

lemma nth_copy_cleared_loop:
  assumes "0 < pool"
    and "cleared + (pool + rws) * cols \<le> length vs"
    and "\<forall>i. cleared \<le> i \<and> i < cleared + pool * cols \<longrightarrow> vs ! i = NAN"
    and "i < length vs"
  shows "copy_cleared_loop cols cleared vs rws pool ! i =
           (if cleared \<le> i \<and> i < cleared + (pool + rws) * cols then NAN else vs ! i)"
  using assms
proof (induction cols cleared vs rws pool rule: copy_cleared_loop.induct)
  case (1 cols cleared vs rws pool)
  show ?case
  proof (cases "0 < rws")
    case False
    then show ?thesis
      using "1.prems" by (subst copy_cleared_loop.simps) auto
  next
    case True
    define ask where "ask = (if rws \<ge> pool then pool else rws)"
    define vs' where "vs' = memcpy vs (cleared + pool * cols) cleared (cols * ask)"
    have ask: "0 < ask" "ask \<le> pool" "ask \<le> rws"
      using True "1.prems"(1) by (auto simp: ask_def)
    have unfold: "copy_cleared_loop cols cleared vs rws pool =
        copy_cleared_loop cols cleared vs' (rws - ask) (pool + ask)"
      using True "1.prems"(1)
      by (subst copy_cleared_loop.simps) (simp add: ask_def vs'_def Let_def)
    have len: "length vs' = length vs" by (simp add: vs'_def)
    have le: "cols * ask \<le> pool * cols"
      using ask(2) by (simp add: mult.commute)
    have nan': "\<forall>j. cleared \<le> j \<and> j < cleared + (pool + ask) * cols \<longrightarrow> vs' ! j = NAN"
    proof (intro allI impI)
      fix j assume j: "cleared \<le> j \<and> j < cleared + (pool + ask) * cols"
      have "(pool + ask) * cols \<le> (pool + rws) * cols"
        using ask(3) by simp
      then have jl: "j < length vs" using j "1.prems"(2) by linarith
      show "vs' ! j = NAN"
      proof (cases "j < cleared + pool * cols")
        case True
        then show ?thesis
          using j jl "1.prems"(3) by (simp add: vs'_def nth_memcpy)
      next
        case False
        then have "j - (cleared + pool * cols) < cols * ask"
          using j by (simp add: algebra_simps)
        then have "cleared + (j - (cleared + pool * cols)) < cleared + pool * cols"
          using le by linarith
        then have "vs ! (cleared + (j - (cleared + pool * cols))) = NAN"
          using "1.prems"(3) by simp
        then show ?thesis
          using False j jl by (simp add: vs'_def nth_memcpy algebra_simps)
      qed
    qed
    have other: "vs' ! i = vs ! i" if "\<not> (cleared \<le> i \<and> i < cleared + (pool + rws) * cols)"
    proof -
      have "ask * cols \<le> rws * cols"
        using ask(3) by simp
      then have "cleared + pool * cols + cols * ask \<le> cleared + (pool + rws) * cols"
        by (simp add: algebra_simps)
      then have "\<not> (cleared + pool * cols \<le> i \<and> i < cleared + pool * cols + cols * ask)"
        using that by auto
      then show ?thesis
        using "1.prems"(4) unfolding vs'_def by (subst nth_memcpy) auto
    qed
    have sum: "pool + ask + (rws - ask) = pool + rws"
      using ask(3) by simp
    have "copy_cleared_loop cols cleared vs' (rws - ask) (pool + ask) ! i =
        (if cleared \<le> i \<and> i < cleared + (pool + ask + (rws - ask)) * cols then NAN else vs' ! i)"
      using "1.IH" [OF _ ask_def, folded vs'_def] True "1.prems" nan' len sum
      by simp
    then show ?thesis
      using other unfold sum by auto
  qed
qed

lemma copy_cleared_row_simps [simp]:
  "vals (copy_cleared_row cb cleared rws) = copy_cleared_loop (columns cb) cleared (vals cb) rws 1"
  "columns (copy_cleared_row cb cleared rws) = columns cb"
  "rows (copy_cleared_row cb cleared rws) = rows cb"
  by (simp_all add: copy_cleared_row_def)

lemma clear_rows_fields:
  "clear_rows cb k = cb\<lparr>vals := vals (clear_rows cb k)\<rparr>"
  by (simp add: clear_rows_def copy_cleared_row_def Let_def)

lemma next_row_less: "0 < rows cb \<Longrightarrow> next_row cb < rows cb"
  by (simp add: next_row_def)


lemma rows_fit_int:
  assumes "0 < columns cb" "rows cb * columns cb < 2 ^ 31"
  shows "rows cb < 2 ^ 31"
  using assms by (metis One_nat_def Suc_leI le_trans mult.right_neutral mult_le_mono2 not_less)

lemma next_row_unsigned:
  assumes "1 < rows cb" "rows cb < 2 ^ 31" "current_row cb < 2 ^ 32"
  shows "(if uint32_of (int (current_row cb) + 1) \<ge> rows cb then 0
               else uint32_of (int (current_row cb) + 1)) = next_row cb"
proof (cases "current_row cb + 1 = 2 ^ 32")
  case True
  then have "int (current_row cb + 1) = 2 ^ 32" by simp
  then have "int (current_row cb) + 1 = 2 ^ 32" by simp
  then have "uint32_of (int (current_row cb) + 1) = 0" by (simp add: uint32_of_def)
  then show ?thesis using True assms by (simp add: next_row_def)
next
  case False
  then have "int (current_row cb) + 1 < 2 ^ 32" using assms(3) by simp
  then have "uint32_of (int (current_row cb) + 1) = nat (int (current_row cb) + 1)"
    by (intro uint32_of_id) simp_all
  also have "\<dots> = current_row cb + 1" by simp
  finally show ?thesis by (simp add: next_row_def)
qed

lemma vals_clear_rows_unwrapped:
  assumes v: "valid_buffer cb" and k: "1 \<le> k"
  defines "n \<equiv> min k (rows cb)" and "s \<equiv> next_row cb" and "cols \<equiv> columns cb"
  shows "vals (clear_rows cb k) =
    (let v1 = set_row_nan (vals cb) (s * cols) cols
     in if s + n > rows cb then
          copy_cleared_loop cols 0
            (set_row_nan (copy_cleared_loop cols (s * cols) v1 (rows cb - s - 1) 1) 0 cols)
            (s + n - 1 - rows cb) 1
        else copy_cleared_loop cols (s * cols) v1 (n - 1) 1)"
proof -
  have r: "1 < rows cb" "0 < columns cb" "rows cb * columns cb < 2 ^ 31" "current_row cb < 2 ^ 32"
    using v by (simp_all add: valid_buffer_def)
  have rows31: "rows cb < 2 ^ 31"
    using r(2,3) by (rule rows_fit_int)
  have num: "(if k \<ge> rows cb then rows cb else k) = n"
    by (simp add: n_def min_def)
  have n: "1 \<le> n" "n \<le> rows cb" using k r(1) by (simp_all add: n_def)
  have row1: "(if uint32_of (int (current_row cb) + 1) \<ge> rows cb then 0
               else uint32_of (int (current_row cb) + 1)) = s"
    unfolding s_def using r(1) rows31 r(4) by (rule next_row_unsigned)
  have s: "s < rows cb" using r(1) by (simp add: s_def next_row_less)
  have "s * cols \<le> rows cb * columns cb" using s by (simp add: cols_def)
  then have "s * cols < 2 ^ 32" using r(3) by simp
  then have cl: "uint32_of (int s * int (columns cb)) = s * cols"
    using uint32_of_nat [of "s * cols"] by (simp add: cols_def)
  have "0 \<le> int s + int n - 1" "int s + int n - 1 < 2 ^ 32"
    using n s rows31 by simp_all
  then have "uint32_of (int s + int n - 1) = nat (int s + int n - 1)"
    by (rule uint32_of_id)
  also have "\<dots> = s + n - 1" by simp
  finally have t1: "uint32_of (int s + int n - 1) = s + n - 1" .
  have "0 \<le> int (rows cb) - int s - 1" "int (rows cb) - int s - 1 < 2 ^ 32"
    using s rows31 by simp_all
  then have "uint32_of (int (rows cb) - int s - 1) = nat (int (rows cb) - int s - 1)"
    by (rule uint32_of_id)
  also have "\<dots> = rows cb - s - 1" by simp
  finally have t2: "uint32_of (int (rows cb) - int s - 1) = rows cb - s - 1" .
  have t3: "uint32_of (int s + int n - 1 - int (rows cb)) = s + n - 1 - rows cb"
    if "s + n > rows cb"
  proof -
    have "0 \<le> int s + int n - 1 - int (rows cb)" "int s + int n - 1 - int (rows cb) < 2 ^ 32"
      using that n s rows31 by simp_all
    then have "uint32_of (int s + int n - 1 - int (rows cb)) = nat (int s + int n - 1 - int (rows cb))"
      by (rule uint32_of_id)
    also have "\<dots> = s + n - 1 - rows cb" by simp
    finally show ?thesis .
  qed
  have "0 \<le> int n - 1" "int n - 1 < 2 ^ 32"
    using n rows31 by simp_all
  then have "uint32_of (int n - 1) = nat (int n - 1)"
    by (rule uint32_of_id)
  also have "\<dots> = n - 1" by simp
  finally have t4: "uint32_of (int n - 1) = n - 1" .
  have c: "(s + n - 1 \<ge> rows cb) = (s + n > rows cb)" using n by auto
  show ?thesis
  proof (cases "s + n > rows cb")
    case True
    then show ?thesis
      unfolding clear_rows_def Let_def num row1 cl t1 t2 t4 c t3 [OF True]
      by (simp add: cols_def)
  next
    case False
    then show ?thesis
      unfolding clear_rows_def Let_def num row1 cl t1 t2 t4 c
      by (simp add: cols_def)
  qed
qed

lemma nth_clear_rows:
  assumes v: "valid_buffer cb" and k: "1 \<le> k" and i: "i < length (vals cb)"
  defines "n \<equiv> min k (rows cb)" and "s \<equiv> next_row cb" and "cols \<equiv> columns cb"
  shows "vals (clear_rows cb k) ! i =
    (if (if s + n > rows cb then s * cols \<le> i \<or> i < (s + n - rows cb) * cols
         else s * cols \<le> i \<and> i < (s + n) * cols)
     then NAN else vals cb ! i)"
proof -
  have r: "1 < rows cb" "0 < cols" "length (vals cb) = rows cb * cols"
    using v by (simp_all add: valid_buffer_def cols_def)
  have n: "1 \<le> n" "n \<le> rows cb" using k r(1) by (simp_all add: n_def)
  have s: "s < rows cb" using r(1) by (simp add: s_def next_row_less)
  define A where "A = s * cols"
  define R where "R = rows cb * cols"
  define v1 where "v1 = set_row_nan (vals cb) A cols"
  have iR: "i < R" using i by (simp add: R_def r(3))
  have len0: "length (vals cb) = R" by (simp add: R_def r(3))
  have len1: "length v1 = R" by (simp add: v1_def len0)
  have row_fits: "A + cols \<le> R"
  proof -
    have "(s + 1) * cols \<le> rows cb * cols" using s by (intro mult_le_mono1) simp
    then show ?thesis by (simp add: A_def R_def)
  qed
  have v1_nth: "v1 ! j = (if A \<le> j \<and> j < A + cols then NAN else vals cb ! j)"
    if "j < R" for j
    using that by (simp add: v1_def nth_set_row_nan len0)
  have v1_nan: "\<forall>j. A \<le> j \<and> j < A + 1 * cols \<longrightarrow> v1 ! j = NAN"
    using v1_nth row_fits by auto
  have unw: "vals (clear_rows cb k) =
    (if s + n > rows cb then
          copy_cleared_loop cols 0
            (set_row_nan (copy_cleared_loop cols A v1 (rows cb - s - 1) 1) 0 cols)
            (s + n - 1 - rows cb) 1
        else copy_cleared_loop cols A v1 (n - 1) 1)"
    using vals_clear_rows_unwrapped [OF v k]
    by (simp only: Let_def v1_def n_def s_def cols_def A_def)
  show ?thesis
  proof (cases "s + n > rows cb")
    case False
    define N where "N = (s + n) * cols"
    have "(s + n) * cols \<le> rows cb * cols" using False by (intro mult_le_mono1) simp
    then have NR: "N \<le> R" by (simp add: N_def R_def)
    have "1 + (n - 1) = n" using n by simp
    then have e: "A + (1 + (n - 1)) * cols = N"
      by (simp add: A_def N_def add_mult_distrib)
    have fits: "A + (1 + (n - 1)) * cols \<le> length v1"
      using NR by (simp only: e len1)
    have "cols \<le> n * cols" using n by simp
    then have AN: "A + cols \<le> N" by (simp add: A_def N_def add_mult_distrib)
    have "copy_cleared_loop cols A v1 (n - 1) 1 ! i =
        (if A \<le> i \<and> i < A + (1 + (n - 1)) * cols then NAN else v1 ! i)"
      using nth_copy_cleared_loop [OF _ fits v1_nan] iR by (simp add: len1)
    then have c: "copy_cleared_loop cols A v1 (n - 1) 1 ! i =
        (if A \<le> i \<and> i < N then NAN else v1 ! i)"
      by (simp only: e)
    have "v1 ! i = vals cb ! i" if "\<not> (A \<le> i \<and> i < N)"
      using that v1_nth [OF iR] AN by auto
    then have "vals (clear_rows cb k) ! i = (if A \<le> i \<and> i < N then NAN else vals cb ! i)"
      using False unw c by simp
    then show ?thesis using False by (simp add: A_def N_def)
  next
    case True
    define M where "M = (s + n - rows cb) * cols"
    define v2 where "v2 = copy_cleared_loop cols A v1 (rows cb - s - 1) 1"
    define v3 where "v3 = set_row_nan v2 0 cols"
    have len2: "length v2 = R" by (simp add: v2_def len1)
    have len3: "length v3 = R" by (simp add: v3_def len2)
    have e1: "A + (1 + (rows cb - s - 1)) * cols = R"
    proof -
      have "1 + (rows cb - s - 1) = rows cb - s" using s by simp
      moreover have "s + (rows cb - s) = rows cb" using s by simp
      then have "s * cols + (rows cb - s) * cols = rows cb * cols"
        by (metis add_mult_distrib)
      ultimately show ?thesis by (simp add: A_def R_def)
    qed
    have fits2: "A + (1 + (rows cb - s - 1)) * cols \<le> length v1"
      by (simp only: e1 len1)
    have v2_nth: "v2 ! j = (if A \<le> j then NAN else vals cb ! j)" if "j < R" for j
    proof -
      have "v2 ! j = (if A \<le> j \<and> j < A + (1 + (rows cb - s - 1)) * cols
                      then NAN else v1 ! j)"
        unfolding v2_def using nth_copy_cleared_loop [OF _ fits2 v1_nan] that by (simp add: len1)
      then have "v2 ! j = (if A \<le> j \<and> j < R then NAN else v1 ! j)"
        by (simp only: e1)
      then show ?thesis using that v1_nth [OF that] by auto
    qed
    have cR: "cols \<le> R" using row_fits by simp
    have v3_nth: "v3 ! j = (if j < cols \<or> A \<le> j then NAN else vals cb ! j)"
      if "j < R" for j
      using that v2_nth [OF that] by (auto simp: v3_def nth_set_row_nan len2)
    have v3_nan: "\<forall>j. 0 \<le> j \<and> j < 0 + 1 * cols \<longrightarrow> v3 ! j = NAN"
      using v3_nth cR by auto
    have "1 + (s + n - 1 - rows cb) = s + n - rows cb" using True by simp
    then have e2: "0 + (1 + (s + n - 1 - rows cb)) * cols = M" by (simp add: M_def)
    have "s + n - rows cb \<le> rows cb" using s n by simp
    then have "(s + n - rows cb) * cols \<le> rows cb * cols" by (intro mult_le_mono1)
    then have MR: "M \<le> R" by (simp add: M_def R_def)
    have fits3: "0 + (1 + (s + n - 1 - rows cb)) * cols \<le> length v3"
      using MR by (simp only: e2 len3)
    have "1 \<le> s + n - rows cb" using True by simp
    then have "1 * cols \<le> (s + n - rows cb) * cols" by (intro mult_le_mono1)
    then have cM: "cols \<le> M" by (simp add: M_def)
    have "copy_cleared_loop cols 0 v3 (s + n - 1 - rows cb) 1 ! i =
        (if 0 \<le> i \<and> i < 0 + (1 + (s + n - 1 - rows cb)) * cols then NAN else v3 ! i)"
      using nth_copy_cleared_loop [OF _ fits3 v3_nan] iR by (simp add: len3)
    then have "copy_cleared_loop cols 0 v3 (s + n - 1 - rows cb) 1 ! i =
        (if i < M then NAN else v3 ! i)"
      by (simp only: e2) simp
    moreover have "v3 ! i = (if A \<le> i then NAN else vals cb ! i)" if "\<not> i < M"
      using that v3_nth [OF iR] cM by auto
    ultimately have "vals (clear_rows cb k) ! i = (if A \<le> i \<or> i < M then NAN else vals cb ! i)"
      using True unw by (auto simp: v2_def v3_def)
    then show ?thesis using True by (simp add: A_def M_def)
  qed
qed

lemma div_eq_row_iff:
  assumes "0 < (cols::nat)"
  shows "(i div cols = row) \<longleftrightarrow> (row * cols \<le> i \<and> i < row * cols + cols)"
proof
  assume "i div cols = row"
  then show "row * cols \<le> i \<and> i < row * cols + cols"
    using assms div_times_less_eq_dividend [of i cols] dividend_less_div_times [of cols i]
    by (auto simp: mult.commute)
next
  assume a: "row * cols \<le> i \<and> i < row * cols + cols"
  then have "i < Suc row * cols" by simp
  then have "i div cols < Suc row" using assms by (simp add: div_less_iff_less_mult)
  moreover have "row \<le> i div cols" using a assms by (simp add: less_eq_div_iff_mult_less_eq)
  ultimately show "i div cols = row" by simp
qed

lemma ring_rows_iff:
  assumes "s < rws" "n \<le> rws" "q < (rws::nat)"
  shows "(\<exists>j<n. q = (s + j) mod rws) \<longleftrightarrow>
         (if s + n > rws then s \<le> q \<or> q < s + n - rws else s \<le> q \<and> q < s + n)"
proof
  assume "\<exists>j<n. q = (s + j) mod rws"
  then obtain j where j: "j < n" "q = (s + j) mod rws" by blast
  show "if s + n > rws then s \<le> q \<or> q < s + n - rws else s \<le> q \<and> q < s + n"
  proof (cases "s + j < rws")
    case True
    then have "q = s + j" using j(2) by simp
    then show ?thesis using j(1) by auto
  next
    case False
    then have "s + j - rws < rws" using assms j(1) by simp
    then have "(s + j) mod rws = s + j - rws"
      using False by (simp add: mod_if)
    then have "q = s + j - rws" using j(2) by simp
    then show ?thesis using False j(1) assms by auto
  qed
next
  assume a: "if s + n > rws then s \<le> q \<or> q < s + n - rws else s \<le> q \<and> q < s + n"
  show "\<exists>j<n. q = (s + j) mod rws"
  proof (cases "s \<le> q")
    case True
    have "q - s < n" using a True assms by (auto split: if_splits)
    moreover have "(s + (q - s)) mod rws = q" using True assms(3) by simp
    ultimately show ?thesis by metis
  next
    case False
    then have b: "s + n > rws" "q < s + n - rws" using a by (auto split: if_splits)
    then have "q + rws - s < n" using False assms(1) by arith
    moreover have "s + (q + rws - s) = q + rws" using assms(1) by simp
    then have "(s + (q + rws - s)) mod rws = q" using assms(3) by simp
    ultimately show ?thesis by metis
  qed
qed

lemma length_naive_clear [simp]: "length (naive_clear vs cols rws row n) = length vs"
  by (induction n arbitrary: vs row) simp_all

lemma nth_naive_clear:
  assumes "0 < cols" "row < rws" "i < length vs"
  shows "naive_clear vs cols rws row n ! i =
           (if \<exists>j<n. i div cols = (row + j) mod rws then NAN else vs ! i)"
  using assms
proof (induction n arbitrary: vs row)
  case 0
  then show ?case by simp
next
  case (Suc n)
  define row' where "row' = (if row + 1 \<ge> rws then 0 else row + 1)"
  define vs' where "vs' = set_row_nan vs (row * cols) cols"
  have row': "row' < rws" using Suc.prems(2) by (simp add: row'_def)
  have m: "(row' + j) mod rws = (row + Suc j) mod rws" for j
  proof (cases "row + 1 \<ge> rws")
    case True
    then have "row + 1 = rws" using Suc.prems(2) by simp
    then have "row + Suc j = rws + j" by simp
    then have "(row + Suc j) mod rws = (rws + j) mod rws" by (rule arg_cong)
    also have "\<dots> = j mod rws" by simp
    finally show ?thesis using True by (simp add: row'_def)
  next
    case False
    then show ?thesis by (simp add: row'_def)
  qed
  have "naive_clear vs cols rws row (Suc n) ! i = naive_clear vs' cols rws row' n ! i"
    by (simp add: row'_def vs'_def)
  also have "\<dots> = (if \<exists>j<n. i div cols = (row' + j) mod rws then NAN else vs' ! i)"
    using Suc.IH [of row' vs'] row' Suc.prems by (simp add: vs'_def)
  also have "vs' ! i = (if i div cols = row then NAN else vs ! i)"
    using Suc.prems by (simp add: vs'_def nth_set_row_nan div_eq_row_iff)
  finally have "naive_clear vs cols rws row (Suc n) ! i =
      (if (i div cols = row) \<or> (\<exists>j<n. i div cols = (row + Suc j) mod rws) then NAN else vs ! i)"
    by (simp only: m) auto
  moreover have "(row + 0) mod rws = row" using Suc.prems(2) by simp
  ultimately show ?case
    by (simp add: Ex_less_Suc2)
qed

lemma cleared_range_iff:
  assumes "0 < (cols::nat)" "s < rws" "n \<le> rws" "i < rws * cols"
  shows "(if s + n > rws then s * cols \<le> i \<or> i < (s + n - rws) * cols
          else s * cols \<le> i \<and> i < (s + n) * cols) \<longleftrightarrow>
         (\<exists>j<n. i div cols = (s + j) mod rws)"
proof -
  have q: "i div cols < rws"
    using assms(1,4) div_less_iff_less_mult [of cols i rws] by blast
  have a: "s * cols \<le> i \<longleftrightarrow> s \<le> i div cols"
    using assms(1) by (simp add: less_eq_div_iff_mult_less_eq)
  have b: "i < m * cols \<longleftrightarrow> i div cols < m" for m
    using assms(1) by (simp add: div_less_iff_less_mult)
  show ?thesis
    unfolding a b using ring_rows_iff [OF assms(2,3) q] by simp
qed

subsection \<open>Row resolution\<close>

lemma valid_buffer_rows31: "valid_buffer cb \<Longrightarrow> rows cb < 2 ^ 31"
  unfolding valid_buffer_def by (metis rows_fit_int)

lemma uint32_of_mod_less: "0 < n \<Longrightarrow> uint32_of x mod n < n"
  by simp

lemma int32_of_nat: "n < 2 ^ 31 \<Longrightarrow> int32_of (int n) = int n"
  by (rule int32_of_id) simp_all

lemma clear_rows_simps [simp]:
  "current_time (clear_rows cb k) = current_time cb"
  "seconds_per_row (clear_rows cb k) = seconds_per_row cb"
  "current_row (clear_rows cb k) = current_row cb"
  "rows (clear_rows cb k) = rows cb"
  "columns (clear_rows cb k) = columns cb"
  "delta (clear_rows cb k) = delta cb"
  "format (clear_rows cb k) = format cb"
  "ref (clear_rows cb k) = ref cb"
  "headers (clear_rows cb k) = headers cb"
  by (subst clear_rows_fields, simp)+

lemma length_vals_clear_rows [simp]: "length (vals (clear_rows cb k)) = length (vals cb)"
  by (simp add: clear_rows_def Let_def)

lemma check_row_eq:
  fixes cb :: circular_buffer and ns :: double
  assumes v: "valid_buffer cb"
  defines "req \<equiv> row_number cb (aligned_time cb ns)"
    and "cur \<equiv> row_number cb (current_time cb)"
  defines "d \<equiv> int32_of (req - cur)"
  shows "check_row cb ns advance =
    (if d > 0 \<and> advance then
       (int (uint32_of req mod rows cb),
        (clear_rows cb (nat d))
          \<lparr>current_time := aligned_time cb ns, current_row := uint32_of req mod rows cb\<rparr>)
     else if req > cur \<or> c_abs d \<ge> int (rows cb) then (- 1, cb)
     else (int (uint32_of req mod rows cb), cb))"
proof -
  have rows31: "rows cb < 2 ^ 31" using v by (rule valid_buffer_rows31)
  have rows0: "0 < rows cb" using v by (simp add: valid_buffer_def)
  have m: "uint32_of req mod rows cb < 2 ^ 31"
    using uint32_of_mod_less [OF rows0, of req] rows31 by simp
  have row: "int32_of (int (uint32_of req mod rows cb)) = int (uint32_of req mod rows cb)"
    using m by (rule int32_of_nat)
  have urow: "uint32_of (int (uint32_of req mod rows cb)) = uint32_of req mod rows cb"
    using m by (intro uint32_of_nat) simp
  have rws: "int32_of (int (rows cb)) = int (rows cb)"
    using rows31 by (rule int32_of_nat)
  have ud: "uint32_of d = nat d" if "d > 0"
    using that int32_of_range [of "req - cur"] by (intro uint32_of_id) (simp_all add: d_def)
  have raw: "check_row cb ns advance =
    (if d > 0 \<and> advance then
       (int32_of (int (uint32_of req mod rows cb)),
        (clear_rows cb (uint32_of d))
          \<lparr>current_time := aligned_time cb ns,
            current_row := uint32_of (int32_of (int (uint32_of req mod rows cb)))\<rparr>)
     else if req > cur \<or> c_abs d \<ge> int32_of (int (rows cb)) then (- 1, cb)
     else (int32_of (int (uint32_of req mod rows cb)), cb))"
    by (simp add: check_row_def Let_def req_def cur_def d_def aligned_time_def row_number_def)
  show ?thesis
  proof (cases "d > 0")
    case True
    show ?thesis unfolding raw row urow rws ud [OF True] ..
  next
    case False
    then show ?thesis unfolding raw row urow rws by simp
  qed
qed

lemma check_row_fields [simp]:
  "seconds_per_row (snd (check_row cb ns advance)) = seconds_per_row cb"
  "rows (snd (check_row cb ns advance)) = rows cb"
  "columns (snd (check_row cb ns advance)) = columns cb"
  "delta (snd (check_row cb ns advance)) = delta cb"
  "format (snd (check_row cb ns advance)) = format cb"
  "ref (snd (check_row cb ns advance)) = ref cb"
  "headers (snd (check_row cb ns advance)) = headers cb"
  "length (vals (snd (check_row cb ns advance))) = length (vals cb)"
  by (simp_all add: check_row_def Let_def)

lemma check_row_no_advance [simp]: "snd (check_row cb ns False) = cb"
  by (simp add: check_row_def Let_def)

lemma check_row_row_range:
  assumes "valid_buffer cb"
  shows "fst (check_row cb ns advance) = - 1 \<or>
         (0 \<le> fst (check_row cb ns advance) \<and> fst (check_row cb ns advance) < int (rows cb))"
proof -
  have "0 < rows cb" using assms by (simp add: valid_buffer_def)
  then have "uint32_of x mod rows cb < rows cb" for x by simp
  then show ?thesis
    unfolding check_row_eq [OF assms] by simp
qed

lemma check_row_current_row:
  assumes "valid_buffer cb"
  shows "current_row (snd (check_row cb ns advance)) = current_row cb \<or>
         current_row (snd (check_row cb ns advance)) < rows cb"
proof -
  have "0 < rows cb" using assms by (simp add: valid_buffer_def)
  then have "uint32_of x mod rows cb < rows cb" for x by simp
  then show ?thesis
    unfolding check_row_eq [OF assms] by simp
qed

lemma valid_buffer_check_row:
  assumes "valid_buffer cb"
  shows "valid_buffer (snd (check_row cb ns advance))"
proof -
  have "rows cb < 2 ^ 31" using assms by (rule valid_buffer_rows31)
  then have "current_row (snd (check_row cb ns advance)) < 2 ^ 32"
    using check_row_current_row [OF assms, of ns advance] assms
    by (auto simp: valid_buffer_def)
  then show ?thesis
    using assms by (simp add: valid_buffer_def)
qed

lemma cell_index_eq:
  assumes "valid_buffer cb" "0 \<le> row" "row < int (rows cb)" "column < columns cb"
  shows "cell_index cb row column = nat row * columns cb + column"
    and "nat row * columns cb + column < length (vals cb)"
    and "int32_of (int (nat row * columns cb + column)) = int (nat row * columns cb + column)"
proof -
  have r: "rows cb * columns cb < 2 ^ 31" "length (vals cb) = rows cb * columns cb"
    using assms(1) by (simp_all add: valid_buffer_def)
  have "Suc (nat row) \<le> rows cb" using assms(2,3) by simp
  then have "Suc (nat row) * columns cb \<le> rows cb * columns cb"
    by (rule mult_le_mono1)
  then have lt: "nat row * columns cb + column < rows cb * columns cb"
    using assms(4) by simp
  then show "nat row * columns cb + column < length (vals cb)" by (simp add: r(2))
  have b: "nat row * columns cb + column < 2 ^ 31" using lt r(1) by simp
  then show "int32_of (int (nat row * columns cb + column)) = int (nat row * columns cb + column)"
    by (rule int32_of_nat)
  have "row * int (columns cb) + int column = int (nat row * columns cb + column)"
    using assms(2) by simp
  moreover have "nat row * columns cb + column < 2 ^ 32" using b by simp
  ultimately show "cell_index cb row column = nat row * columns cb + column"
    unfolding cell_index_def by (simp only: uint32_of_nat)
qed

lemma check_column_less:
  assumes "check_column cb a arg = Inr column"
  shows "column < columns cb"
proof -
  obtain i where i: "a = Given i" "1 \<le> uint32_of i" "uint32_of i \<le> columns cb"
    "column = uint32_of (int (uint32_of i) - 1)"
    using assms
    by (cases a) (auto simp: check_column_def Let_def split: if_splits)
  have "uint32_of i < 2 ^ 32" by (simp add: uint32_of_def)
  then have "uint32_of (int (uint32_of i) - 1) = nat (int (uint32_of i) - 1)"
    using i(2) by (intro uint32_of_id) simp_all
  then show ?thesis using i by simp
qed

lemma ring_cells_Suc:
  "ring_cells cb column row (Suc n) =
     vals cb ! ((row mod rows cb) * columns cb + column) # ring_cells cb column (Suc row) n"
proof -
  have "[0..<Suc n] = 0 # map Suc [0..<n]"
    by (simp add: upt_conv_Cons map_Suc_upt del: upt_Suc)
  then show ?thesis
    by (simp add: ring_cells_def comp_def del: upt_Suc)
qed

lemma ring_cells_mod:
  "0 < rows cb \<Longrightarrow> ring_cells cb column (row mod rows cb) n = ring_cells cb column row n"
  by (simp add: ring_cells_def mod_add_left_eq)

lemma range_loop_returns:
  assumes v: "valid_buffer cb" and c: "column < columns cb"
    and e: "e < rows cb" and r: "r \<le> rows cb"
    and d: "d = (e + rows cb - r mod rows cb) mod rows cb"
  shows "range_loop cb column (int e) (int r) acc =
           Some (Inr (acc @ ring_cells cb column r (Suc d)))"
  using r d
proof (induction d arbitrary: r acc)
  case 0
  have rows: "0 < rows cb" "rows cb < 2 ^ 31"
    using v valid_buffer_rows31 [OF v] by (simp_all add: valid_buffer_def)
  define r1 where "r1 = r mod rows cb"
  have r1: "r1 < rows cb" using rows by (simp add: r1_def)
  have row1: "(if int r = int32_of (int (rows cb)) then 0 else int r) = int r1"
    using rows 0(1) by (auto simp: int32_of_nat r1_def)
  have z: "(e + rows cb - r1) mod rows cb = 0" using 0(2) by (simp add: r1_def)
  have eq: "e = r1"
  proof (cases "r1 \<le> e")
    case True
    then have "e + rows cb - r1 = (e - r1) + rows cb" by simp
    then have "(e + rows cb - r1) mod rows cb = (e - r1) mod rows cb" by simp
    also have "\<dots> = e - r1" using e by simp
    finally show ?thesis using z True by simp
  next
    case False
    then have "e + rows cb - r1 < rows cb" "0 < e + rows cb - r1" using r1 by simp_all
    then show ?thesis using z by simp
  qed
  have idx: "cell_index cb (int r1) column = r1 * columns cb + column"
    "r1 * columns cb + column < length (vals cb)"
    using cell_index_eq [OF v _ _ c, of "int r1"] r1 by simp_all
  show ?case
    by (subst range_loop.simps)
      (simp add: Let_def row1 [unfolded r1_def] idx [unfolded r1_def] eq [unfolded r1_def]
        ring_cells_Suc ring_cells_def)
next
  case (Suc d)
  have rows: "0 < rows cb" "rows cb < 2 ^ 31"
    using v valid_buffer_rows31 [OF v] by (simp_all add: valid_buffer_def)
  define r1 where "r1 = r mod rows cb"
  have r1: "r1 < rows cb" using rows by (simp add: r1_def)
  have row1: "(if int r = int32_of (int (rows cb)) then 0 else int r) = int r1"
    using rows Suc.prems(1) by (auto simp: int32_of_nat r1_def)
  have sd: "(e + rows cb - r1) mod rows cb = Suc d" using Suc.prems(2) by (simp add: r1_def)
  then have ne: "e \<noteq> r1" using rows by auto
  have idx: "cell_index cb (int r1) column = r1 * columns cb + column"
    "r1 * columns cb + column < length (vals cb)"
    using cell_index_eq [OF v _ _ c, of "int r1"] r1 by simp_all
  have s1: "int r1 + 1 = int (Suc r1)" by simp
  have nxt: "int32_of (int r1 + 1) = int (Suc r1)"
    unfolding s1 using r1 rows(2) by (intro int32_of_nat) simp
  have le: "Suc r1 \<le> rows cb" using r1 by simp
  have "(e + rows cb - Suc r1 mod rows cb) mod rows cb = d"
  proof (cases "Suc r1 = rows cb")
    case True
    then have "e + rows cb - r1 = Suc e" by simp
    then have "Suc e mod rows cb = Suc d" using sd by simp
    moreover have "Suc e \<noteq> rows cb" using calculation by auto
    then have "Suc e < rows cb" using e by simp
    ultimately have "e = d" by simp
    then show ?thesis using True e by simp
  next
    case False
    then have lt: "Suc r1 < rows cb" using le by simp
    have "e + rows cb - r1 = Suc (e + rows cb - Suc r1)" using lt by simp
    then have s: "Suc (e + rows cb - Suc r1) mod rows cb = Suc d" using sd by simp
    have "(e + rows cb - Suc r1) mod rows cb = d"
      using s rows(1) by (metis Suc_inject mod_Suc nat.distinct(1))
    then show ?thesis using lt by simp
  qed
  then have ih: "range_loop cb column (int e) (int (Suc r1)) acc' =
      Some (Inr (acc' @ ring_cells cb column (Suc r1) (Suc d)))" for acc'
    using Suc.IH [OF le, of acc'] by simp
  have "range_loop cb column (int e) (int r) acc =
      range_loop cb column (int e) (int (Suc r1)) (acc @ [vals cb ! (r1 * columns cb + column)])"
    using ne by (subst range_loop.simps) (simp add: Let_def row1 idx nxt del: of_nat_Suc)
  also have "\<dots> = Some (Inr (acc @ vals cb ! (r1 * columns cb + column) #
      ring_cells cb column (Suc r1) (Suc d)))"
    by (simp only: ih append_assoc append_Cons append_Nil)
  also have "ring_cells cb column (Suc r1) (Suc d) = ring_cells cb column (Suc r) (Suc d)"
    using ring_cells_mod [OF rows(1), of column "Suc r" "Suc d"]
      ring_cells_mod [OF rows(1), of column "Suc r1" "Suc d"]
    by (simp add: r1_def mod_Suc_eq)
  finally show ?case
    by (simp add: ring_cells_Suc [of cb column r] r1_def)
qed

lemma check_row_no_advance_eq: "check_row cb ns False = (fst (check_row cb ns False), cb)"
  by (metis check_row_no_advance prod.collapse)

lemma valid_buffer_columns31: "valid_buffer cb \<Longrightarrow> columns cb < 2 ^ 31"
proof -
  assume v: "valid_buffer cb"
  have a: "columns cb \<le> rows cb * columns cb"
    using v by (simp add: valid_buffer_def)
  have b: "rows cb * columns cb < 2 ^ 31"
    using v by (simp add: valid_buffer_def)
  show ?thesis using a b by (rule le_less_trans)
qed

lemma check_column_Given:
  assumes "valid_buffer cb" "1 \<le> c" "c \<le> int (columns cb)"
  shows "check_column cb (Given c) arg = Inr (nat (c - 1))"
proof -
  have "columns cb < 2 ^ 31"
    using assms(1) by (rule valid_buffer_columns31)
  then have u: "uint32_of c = nat c"
    using assms(2,3) by (intro uint32_of_id) simp_all
  have "uint32_of (int (nat c) - 1) = nat (int (nat c) - 1)"
    using assms(2,3) \<open>columns cb < 2 ^ 31\<close> by (intro uint32_of_id) simp_all
  then have "uint32_of (int (nat c) - 1) = nat (c - 1)" using assms(2) by simp
  moreover have "1 \<le> nat c" "nat c \<le> columns cb"
    using assms(2,3) by linarith+
  ultimately show ?thesis
    by (simp add: check_column_def Let_def u)
qed

lemma cb_get_range_walk:
  assumes v: "valid_buffer cb"
    and col: "check_column cb a 2 = Inr column"
    and s: "luaL_optnumber b 3 (ns_of_time (get_start_time cb)) = Inr start_ns"
    and e: "luaL_optnumber c 4 (ns_of_time (current_time cb)) = Inr end_ns"
    and ge: "dgreater_eq end_ns start_ns"
    and sr: "fst (check_row cb start_ns False) \<noteq> - 1"
    and er: "fst (check_row cb end_ns False) \<noteq> - 1"
  shows "cb_get_range cb a b c =
    Some (Inr (Some (ring_cells cb column (nat (fst (check_row cb start_ns False)))
      (Suc ((nat (fst (check_row cb end_ns False)) + rows cb -
             nat (fst (check_row cb start_ns False))) mod rows cb)))), cb)"
proof -
  define start_row where "start_row = fst (check_row cb start_ns False)"
  define end_row where "end_row = fst (check_row cb end_ns False)"
  have c: "column < columns cb" using col by (rule check_column_less)
  have rs: "0 \<le> start_row" "start_row < int (rows cb)"
    using check_row_row_range [OF v, of start_ns False] sr by (simp_all add: start_row_def)
  have re: "0 \<le> end_row" "end_row < int (rows cb)"
    using check_row_row_range [OF v, of end_ns False] er by (simp_all add: end_row_def)
  have m: "nat start_row mod rows cb = nat start_row" using rs by simp
  have "range_loop cb column (int (nat end_row)) (int (nat start_row)) [] =
      Some (Inr ([] @ ring_cells cb column (nat start_row)
        (Suc ((nat end_row + rows cb - nat start_row mod rows cb) mod rows cb))))"
    using rs re by (intro range_loop_returns [OF v c]) simp_all
  then have loop: "range_loop cb column end_row start_row [] =
      Some (Inr (ring_cells cb column (nat start_row)
        (Suc ((nat end_row + rows cb - nat start_row) mod rows cb))))"
    using rs(1) re(1) by (simp add: m)
  have cs: "check_row cb start_ns False = (start_row, cb)"
    unfolding start_row_def by (rule check_row_no_advance_eq)
  have ce: "check_row cb end_ns False = (end_row, cb)"
    unfolding end_row_def by (rule check_row_no_advance_eq)
  have ne: "- 1 \<noteq> start_row" "- 1 \<noteq> end_row"
    using rs(1) re(1) by simp_all
  show ?thesis
    unfolding cb_get_range_def
    by (simp add: col s e ge cs ce ne loop flip: start_row_def end_row_def)
qed

lemma cb_get_range_total:
  assumes v: "valid_buffer cb"
  shows "\<exists>r. cb_get_range cb a b c = Some r \<and> fst r \<noteq> Inl Out_of_bounds"
proof (cases "check_column cb a 2")
  case (Inl x)
  then show ?thesis
    by (cases a) (auto simp: cb_get_range_def check_column_def Let_def split: if_splits)
next
  case col: (Inr column)
  show ?thesis
  proof (cases "luaL_optnumber b 3 (ns_of_time (get_start_time cb))")
    case (Inl x)
    then show ?thesis
      by (cases b) (auto simp: cb_get_range_def col)
  next
    case s: (Inr start_ns)
    show ?thesis
    proof (cases "luaL_optnumber c 4 (ns_of_time (current_time cb))")
      case (Inl x)
      then show ?thesis
        by (cases c) (auto simp: cb_get_range_def col s)
    next
      case e: (Inr end_ns)
      show ?thesis
      proof (cases "dgreater_eq end_ns start_ns \<and> fst (check_row cb start_ns False) \<noteq> - 1
                    \<and> fst (check_row cb end_ns False) \<noteq> - 1")
        case True
        then show ?thesis
          using cb_get_range_walk [OF v col s e] by simp
      next
        case False
        define start_row where "start_row = fst (check_row cb start_ns False)"
        define end_row where "end_row = fst (check_row cb end_ns False)"
        have cs: "check_row cb start_ns False = (start_row, cb)"
          unfolding start_row_def by (rule check_row_no_advance_eq)
        have ce: "check_row cb end_ns False = (end_row, cb)"
          unfolding end_row_def by (rule check_row_no_advance_eq)
        show ?thesis
        proof (cases "dgreater_eq end_ns start_ns")
          case ge: True
          then have "- 1 = start_row \<or> - 1 = end_row"
            using False by (auto simp: start_row_def end_row_def)
          then have "cb_get_range cb a b c = Some (Inr None, cb)"
            unfolding cb_get_range_def by (simp add: col s e ge cs ce)
          then show ?thesis by simp
        next
          case False
          then show ?thesis by (simp add: cb_get_range_def col s e)
        qed
      qed
    qed
  qed
qed

lemma check_column_check_row [simp]:
  "check_column (snd (check_row cb ns advance)) a arg = check_column cb a arg"
  by (cases a) (simp_all add: check_column_def)

lemma check_row_collapse:
  "check_row cb ns advance = (row, cb1) \<Longrightarrow>
     row = fst (check_row cb ns advance) \<and> cb1 = snd (check_row cb ns advance)"
  by simp

lemma cell_in_bounds:
  assumes v: "valid_buffer cb"
    and r: "check_row cb ns advance = (row, cb1)" "row \<noteq> - 1"
    and c: "column < columns cb"
  shows "cell_index cb1 row column = nat row * columns cb + column"
    and "nat row * columns cb + column < length (vals cb1)"
    and "int32_of (int (cell_index cb1 row column)) = int (nat row * columns cb + column)"
proof -
  have v1: "valid_buffer cb1"
    using valid_buffer_check_row [OF v, of ns advance] r(1) by simp
  have f: "rows cb1 = rows cb" "columns cb1 = columns cb"
    using check_row_collapse [OF r(1)] by simp_all
  have rng: "0 \<le> row" "row < int (rows cb1)"
    using check_row_row_range [OF v, of ns advance] r by (simp_all add: f)
  have c1: "column < columns cb1" using c by (simp add: f)
  show a: "cell_index cb1 row column = nat row * columns cb + column"
    using cell_index_eq(1) [OF v1 rng c1] by (simp add: f)
  show "nat row * columns cb + column < length (vals cb1)"
    using cell_index_eq(2) [OF v1 rng c1] by (simp add: f)
  show "int32_of (int (cell_index cb1 row column)) = int (nat row * columns cb + column)"
    using cell_index_eq(3) [OF v1 rng c1] by (simp add: a f)
qed

lemma cb_get_eq:
  assumes v: "valid_buffer cb" and col: "check_column cb a 3 = Inr column"
  shows "cb_get cb (Given ns) a =
    (if fst (check_row cb ns False) \<noteq> - 1
     then (Inr (Some (vals cb ! (nat (fst (check_row cb ns False)) * columns cb + column))), cb)
     else (Inr None, cb))"
proof -
  define row where "row = fst (check_row cb ns False)"
  have cr: "check_row cb ns False = (row, cb)"
    unfolding row_def by (rule check_row_no_advance_eq)
  have c: "column < columns cb" using col by (rule check_column_less)
  show ?thesis
  proof (cases "row = - 1")
    case True
    then show ?thesis
      unfolding cb_get_def by (simp add: cr col flip: row_def)
  next
    case False
    define n where "n = nat row * columns cb + column"
    have b: "cell_index cb row column = n" "n < length (vals cb)"
      using cell_in_bounds [OF v cr False c] by (simp_all add: n_def)
    have "cb_get cb (Given ns) a = (Inr (Some (vals cb ! n)), cb)"
      unfolding cb_get_def using False by (simp add: cr col b Let_def)
    then show ?thesis
      using False by (simp add: n_def row_def)
  qed
qed

lemma cb_add_eq:
  assumes v: "valid_buffer cb"
    and r: "check_row cb ns True = (row, cb1)" "row \<noteq> - 1"
    and col: "check_column cb a 3 = Inr column"
  shows "cb_add cb (Given ns) a (Given value) =
    (let i = nat row * columns cb + column;
         new = (if isnan (vals cb1 ! i) then value else dadd (vals cb1 ! i) value);
         cb2 = cb1\<lparr>vals := (vals cb1)[i := new]\<rparr>
     in if delta cb \<and> dnonzero value then
          (Inr (Some new),
           cb_add_delta cb2 ns column
             (if aggregation (headers cb ! column) \<noteq> AGGREGATION_SUM then new else value))
        else (Inr (Some new), cb2))"
proof -
  have c: "column < columns cb" using col by (rule check_column_less)
  define n where "n = nat row * columns cb + column"
  have b: "int32_of (int (cell_index cb1 row column)) = int n" "n < length (vals cb1)"
    using cell_in_bounds [OF v r c] by (simp_all add: n_def)
  have f: "delta cb1 = delta cb" "headers cb1 = headers cb"
    using check_row_collapse [OF r(1)] by simp_all
  have col1: "check_column cb1 a 3 = Inr column"
    using check_row_collapse [OF r(1)] col by simp
  show ?thesis
    unfolding cb_add_def n_def [symmetric] using r(2) by (simp add: r(1) col1 b f Let_def)
qed

lemma cb_set_eq:
  assumes v: "valid_buffer cb"
    and r: "check_row cb ns True = (row, cb1)" "row \<noteq> - 1"
    and col: "check_column cb a 3 = Inr column"
  shows "cb_set cb (Given ns) a (Given value) =
    (let i = nat row * columns cb + column;
         old = vals cb1 ! i;
         cb2 = cb1\<lparr>vals := (vals cb1)[i := value]\<rparr>
     in (case aggregation (headers cb ! column) of
           AGGREGATION_MIN \<Rightarrow>
             if isnan old \<or> dless value old then
               (Inr (Some value), if delta cb then cb_add_delta cb2 ns column value else cb2)
             else (Inr (Some old), cb1)
         | AGGREGATION_MAX \<Rightarrow>
             if isnan old \<or> dgreater value old then
               (Inr (Some value), if delta cb then cb_add_delta cb2 ns column value else cb2)
             else (Inr (Some old), cb1)
         | _ \<Rightarrow>
             (Inr (Some value),
              if delta cb then
                cb_add_delta cb2 ns column
                  (if \<not> isnan old \<and> old \<noteq> INFINITY \<and> old \<noteq> NEG_INFINITY
                   then dsub value old else value)
              else cb2)))"
proof -
  have c: "column < columns cb" using col by (rule check_column_less)
  define n where "n = nat row * columns cb + column"
  have b: "int32_of (int (cell_index cb1 row column)) = int n" "n < length (vals cb1)"
    using cell_in_bounds [OF v r c] by (simp_all add: n_def)
  have f: "delta cb1 = delta cb" "headers cb1 = headers cb"
    using check_row_collapse [OF r(1)] by simp_all
  have col1: "check_column cb1 a 3 = Inr column"
    using check_row_collapse [OF r(1)] col by simp
  show ?thesis
    unfolding cb_set_def n_def [symmetric] using r(2) by (simp add: r(1) col1 b f Let_def)
qed

lemma check_column_failure:
  "check_column cb a arg = Inl e \<Longrightarrow> e \<noteq> Out_of_bounds"
  by (cases a) (auto simp: check_column_def Let_def split: if_splits)

lemma luaL_checknumber_failure:
  "luaL_checknumber a arg = Inl e \<Longrightarrow> e \<noteq> Out_of_bounds"
  by (cases a) auto

lemma cb_get_in_bounds:
  assumes v: "valid_buffer cb"
  shows "fst (cb_get cb ns_arg col_arg) \<noteq> Inl Out_of_bounds"
proof (cases ns_arg)
  case (Given ns)
  show ?thesis
  proof (cases "check_column cb col_arg 3")
    case (Inl e)
    define row where "row = fst (check_row cb ns False)"
    have cr: "check_row cb ns False = (row, cb)"
      unfolding row_def by (rule check_row_no_advance_eq)
    show ?thesis
      using check_column_failure [OF Inl] by (simp add: cb_get_def Given cr Inl)
  next
    case (Inr column)
    show ?thesis
      unfolding Given cb_get_eq [OF v Inr] by simp
  qed
qed (simp_all add: cb_get_def)

lemma cb_add_in_bounds:
  assumes v: "valid_buffer cb"
  shows "fst (cb_add cb ns_arg col_arg val_arg) \<noteq> Inl Out_of_bounds"
proof (cases ns_arg)
  case (Given ns)
  obtain row cb1 where r: "check_row cb ns True = (row, cb1)" by (cases "check_row cb ns True")
  have col1: "check_column cb1 col_arg 3 = check_column cb col_arg 3"
    using check_row_collapse [OF r] by simp
  show ?thesis
  proof (cases "check_column cb col_arg 3")
    case (Inl e)
    then show ?thesis
      using check_column_failure [OF Inl] by (simp add: cb_add_def Given r col1)
  next
    case (Inr column)
    show ?thesis
    proof (cases val_arg)
      case val: (Given "value")
      show ?thesis
      proof (cases "row = - 1")
        case True
        then show ?thesis by (simp add: cb_add_def Given r col1 Inr val)
      next
        case False
        show ?thesis
          unfolding Given val cb_add_eq [OF v r False Inr] by (simp add: Let_def)
      qed
    qed (simp_all add: cb_add_def Given r col1 Inr)
  qed
qed (simp_all add: cb_add_def)

lemma cb_set_in_bounds:
  assumes v: "valid_buffer cb"
  shows "fst (cb_set cb ns_arg col_arg val_arg) \<noteq> Inl Out_of_bounds"
proof (cases ns_arg)
  case (Given ns)
  obtain row cb1 where r: "check_row cb ns True = (row, cb1)" by (cases "check_row cb ns True")
  have col1: "check_column cb1 col_arg 3 = check_column cb col_arg 3"
    using check_row_collapse [OF r] by simp
  show ?thesis
  proof (cases "check_column cb col_arg 3")
    case (Inl e)
    then show ?thesis
      using check_column_failure [OF Inl] by (simp add: cb_set_def Given r col1)
  next
    case (Inr column)
    show ?thesis
    proof (cases val_arg)
      case val: (Given "value")
      show ?thesis
      proof (cases "row = - 1")
        case True
        then show ?thesis by (simp add: cb_set_def Given r col1 Inr val)
      next
        case False
        show ?thesis
          unfolding Given val cb_set_eq [OF v r False Inr]
          by (simp add: Let_def split: COLUMN_AGGREGATION.split)
      qed
    qed (simp_all add: cb_set_def Given r col1 Inr)
  qed
qed (simp_all add: cb_set_def)

lemma c_mod_aligned: "c_mod (t - c_mod t b) b = 0"
proof -
  have "t - c_mod t b = sgn t * \<bar>t\<bar> - sgn t * (\<bar>t\<bar> mod \<bar>b\<bar>)"
    by (simp add: c_mod_def sgn_mult_abs)
  also have "\<dots> = sgn t * (\<bar>t\<bar> - \<bar>t\<bar> mod \<bar>b\<bar>)"
    by (simp add: right_diff_distrib)
  also have "\<bar>t\<bar> - \<bar>t\<bar> mod \<bar>b\<bar> = \<bar>b\<bar> * (\<bar>t\<bar> div \<bar>b\<bar>)"
    by (simp add: minus_mod_eq_mult_div)
  finally have "\<bar>b\<bar> dvd t - c_mod t b" by simp
  then have "\<bar>b\<bar> dvd \<bar>t - c_mod t b\<bar>" by simp
  then have "\<bar>t - c_mod t b\<bar> mod \<bar>b\<bar> = 0" by (rule dvd_imp_mod_0)
  then show ?thesis by (simp add: c_mod_def [of "t - c_mod t b"])
qed

lemma check_row_rejected:
  assumes "valid_buffer cb" "fst (check_row cb ns advance) = - 1"
  shows "check_row cb ns advance = (- 1, cb)"
proof -
  have "0 \<le> int (uint32_of x mod rows cb)" for x by simp
  then show ?thesis
    using assms(2) unfolding check_row_eq [OF assms(1)]
    by (auto split: if_splits)
qed

lemma check_row_delta:
  assumes "valid_buffer cb"
  shows "check_row cb ns advance =
    (if row_delta cb ns > 0 \<and> advance then
       (int (uint32_of (row_number cb (aligned_time cb ns)) mod rows cb),
        (clear_rows cb (nat (row_delta cb ns)))
          \<lparr>current_time := aligned_time cb ns,
            current_row := uint32_of (row_number cb (aligned_time cb ns)) mod rows cb\<rparr>)
     else if row_number cb (aligned_time cb ns) > row_number cb (current_time cb) \<or>
             c_abs (row_delta cb ns) \<ge> int (rows cb) then (- 1, cb)
     else (int (uint32_of (row_number cb (aligned_time cb ns)) mod rows cb), cb))"
  unfolding row_delta_def by (rule check_row_eq [OF assms])

lemma row_number_range: "- (2 ^ 31) \<le> row_number cb t \<and> row_number cb t < 2 ^ 31"
  unfolding row_number_def by (rule int32_of_range)

lemma row_delta_exact:
  assumes "0 \<le> row_number cb (aligned_time cb ns)"
    and "row_number cb (aligned_time cb ns) - row_number cb (current_time cb) < 2 ^ 31"
  shows "row_delta cb ns = row_number cb (aligned_time cb ns) - row_number cb (current_time cb)"
    and "c_abs (row_delta cb ns) =
           \<bar>row_number cb (aligned_time cb ns) - row_number cb (current_time cb)\<bar>"
proof -
  define req where "req = row_number cb (aligned_time cb ns)"
  define cur where "cur = row_number cb (current_time cb)"
  have "cur < 2 ^ 31" using row_number_range [of cb "current_time cb"] by (simp add: cur_def)
  then have lo: "- (2 ^ 31) < req - cur" using assms(1) by (simp add: req_def)
  have hi: "req - cur < 2 ^ 31" using assms(2) by (simp add: req_def cur_def)
  have d: "int32_of (req - cur) = req - cur" using lo hi by (intro int32_of_id) simp_all
  have "- (2 ^ 31) \<le> \<bar>req - cur\<bar>" "\<bar>req - cur\<bar> < 2 ^ 31" using lo hi by simp_all
  then have a: "int32_of \<bar>req - cur\<bar> = \<bar>req - cur\<bar>" by (rule int32_of_id)
  show "row_delta cb ns = row_number cb (aligned_time cb ns) - row_number cb (current_time cb)"
    using d by (simp add: row_delta_def req_def cur_def)
  show "c_abs (row_delta cb ns) =
           \<bar>row_number cb (aligned_time cb ns) - row_number cb (current_time cb)\<bar>"
    using d a by (simp add: row_delta_def c_abs_def req_def cur_def)
qed

lemma uint32_of_mod_nonneg:
  assumes "0 \<le> x" "x < 2 ^ 31"
  shows "int (uint32_of x mod n) = x mod int n"
proof -
  have "uint32_of x = nat x" using assms by (intro uint32_of_id) simp_all
  then show ?thesis using assms(1) by (simp add: zmod_int)
qed

lemma rejected_is_noop:
  assumes v: "valid_buffer cb" and col: "check_column cb col_arg 3 = Inr column"
  shows "fst (check_row cb ns True) = - 1 \<Longrightarrow>
           cb_add cb (Given ns) col_arg (Given value) = (Inr None, cb)"
    and "fst (check_row cb ns True) = - 1 \<Longrightarrow>
           cb_set cb (Given ns) col_arg (Given value) = (Inr None, cb)"
    and "fst (check_row cb ns False) = - 1 \<Longrightarrow> cb_get cb (Given ns) col_arg = (Inr None, cb)"
proof -
  show "cb_add cb (Given ns) col_arg (Given value) = (Inr None, cb)"
    if "fst (check_row cb ns True) = - 1"
    using check_row_rejected [OF v that] by (simp add: cb_add_def col)
  show "cb_set cb (Given ns) col_arg (Given value) = (Inr None, cb)"
    if "fst (check_row cb ns True) = - 1"
    using check_row_rejected [OF v that] by (simp add: cb_set_def col)
  show "cb_get cb (Given ns) col_arg = (Inr None, cb)"
    if "fst (check_row cb ns False) = - 1"
    using check_row_rejected [OF v that] by (simp add: cb_get_def col)
qed

lemma c_trunc_of_int: "c_trunc (of_int z) = z"
  by (simp add: c_trunc_def)

lemma c_trunc_simps [simp]:
  "c_trunc 0 = 0" "c_trunc 1 = 1" "c_trunc (- 1) = - 1"
  "c_trunc (numeral n) = numeral n" "c_trunc (- numeral n) = - numeral n"
  using c_trunc_of_int [of 0] c_trunc_of_int [of 1] c_trunc_of_int [of "- 1"]
    c_trunc_of_int [of "numeral n"] c_trunc_of_int [of "- numeral n"]
  by simp_all

lemmas eval_defs =
  dround_def exponent_def pow2_def round_half_even_def expo_up.simps expo_down.simps
  time_t_of_def
  Let_def c_mod_def c_div_def int32_of_def uint32_of_def c_abs_def
  check_row_def aligned_time_def row_number_def row_delta_def

lemma k5: "check_row restored_at_0 (Finite (- 1000000000)) False = (0, restored_at_0)"
  by (simp add: restored_at_0_def fresh_3x1_def eval_defs)

lemma k6: "check_row restored_at_0 (Finite (- 1000000000)) True = (0, restored_at_0)"
  by (simp add: restored_at_0_def fresh_3x1_def eval_defs)

lemma t2: "check_row fresh_3x1 (Finite 4000000000) True =
   (1, fresh_3x1\<lparr>current_time := 4, current_row := 1\<rparr>)"
  by (simp add: fresh_3x1_def eval_defs
      clear_rows_def copy_cleared_row_def set_row_nan_def copy_cleared_loop.simps)


lemma valid_restored_at_0: "valid_buffer restored_at_0"
  by (simp add: valid_buffer_def restored_at_0_def fresh_3x1_def)

lemmas op_eval = cb_add_def cb_get_def cb_set_def check_column_def cell_index_def isnan_def
  dnonzero_def cb_add_delta_def

lemma decimal_1: "decimal (Suc 0) = ''1''"
  by code_simp

lemma upt_3: "[0..<3] = [0, Suc 0, Suc (Suc 0)]"
  by code_simp

lemma cb_new_3x1: "cb_new mem 3 1 1 False = Inr fresh_3x1"
  by (simp add: cb_new_def fresh_3x1_def clear_rows_def copy_cleared_row_def Let_def
      int32_of_def uint32_of_def set_row_nan_def copy_cleared_loop.simps
      COLUMN_NAME_SIZE_def UNIT_LABEL_SIZE_def strncpy_def c_string_def default_unit_def
      decimal_1 upt_3)

lemma cb_add_delta_fields [simp]:
  "current_time (cb_add_delta cb ns column v) = current_time cb"
  "seconds_per_row (cb_add_delta cb ns column v) = seconds_per_row cb"
  "current_row (cb_add_delta cb ns column v) = current_row cb"
  "rows (cb_add_delta cb ns column v) = rows cb"
  "columns (cb_add_delta cb ns column v) = columns cb"
  "delta (cb_add_delta cb ns column v) = delta cb"
  "format (cb_add_delta cb ns column v) = format cb"
  "headers (cb_add_delta cb ns column v) = headers cb"
  "vals (cb_add_delta cb ns column v) = vals cb"
  by (simp_all add: cb_add_delta_def Let_def)

lemma delta_entry_cb_add_delta:
  "delta_entry (cb_add_delta cb ns column v) t c =
     (if t = int32_of (aligned_time cb ns) \<and> c = column
      then Some (dadd v (logged cb t c)) else delta_entry cb t c)"
  by (simp add: cb_add_delta_def delta_entry_def logged_def aligned_time_def Let_def update_conv'
      split: option.splits)

lemma delta_entry_vals_update [simp]:
  "delta_entry (cb\<lparr>vals := vs\<rparr>) t c = delta_entry cb t c"
  by (simp add: delta_entry_def)

lemma aligned_time_vals_update [simp]:
  "aligned_time (cb\<lparr>vals := vs\<rparr>) ns = aligned_time cb ns"
  by (simp add: aligned_time_def)

lemma logged_vals_update [simp]:
  "logged (cb\<lparr>vals := vs\<rparr>) t c = logged cb t c"
  by (simp add: logged_def)


lemma dless_irrefl [simp]: "\<not> dless a a"
  by (cases a) simp_all

lemma columns_replay_step [simp]: "columns (replay_step cols ds k b) = columns b"
  by (simp add: replay_step_def)

lemma delta_loop_numbers:
  assumes "columns b = cols" and "drop k ds = rest" and "pos = k mod (cols + 1)"
    and "pos \<noteq> 0 \<Longrightarrow> ns = dscale (ds ! (k - pos)) 1000000000" and "k \<le> length ds"
  shows "delta_loop b ns pos (map Number rest) =
           Some (length ds mod (cols + 1), fold (replay_step cols ds) [k..<length ds] b)"
  using assms
proof (induction rest arbitrary: b ns pos k)
  case Nil
  then have "k = length ds" by simp
  then show ?case
    using Nil by (subst delta_loop.simps) simp
next
  case (Cons v rest)
  have k: "k < length ds" using Cons.prems(2) by (cases "k < length ds") simp_all
  have v: "ds ! k = v" and d: "drop (Suc k) ds = rest"
    using Cons.prems(2) k by (simp_all add: Cons_nth_drop_Suc [symmetric])
  define b' where "b' = (if pos = 0 then b else cb_add_delta b ns (pos - 1) v)"
  define ns' where "ns' = (if pos = 0 then dscale v 1000000000 else ns)"
  define pos' where "pos' = (if pos = columns b then 0 else pos + 1)"
  have step: "delta_loop b ns pos (map Number (v # rest)) = delta_loop b' ns' pos' (map Number rest)"
    by (subst delta_loop.simps) (simp add: b'_def ns'_def pos'_def)
  have b': "b' = replay_step cols ds k b"
    using Cons.prems(3,4) by (simp add: b'_def replay_step_def v)
  have c': "columns b' = cols"
    using Cons.prems(1) by (simp add: b')
  have pos_le: "pos \<le> cols" using Cons.prems(3) by (simp add: less_Suc_eq_le [symmetric])
  have p': "pos' = Suc k mod (cols + 1)"
    using Cons.prems(1,3) pos_le by (simp add: pos'_def mod_Suc)
  have n': "ns' = dscale (ds ! (Suc k - pos')) 1000000000" if "pos' \<noteq> 0"
  proof (cases "pos = 0")
    case True
    then have "pos' = 1" using that by (simp add: pos'_def split: if_splits)
    then show ?thesis using True by (simp add: ns'_def v)
  next
    case False
    then have "pos' = pos + 1" using that by (simp add: pos'_def split: if_splits)
    then show ?thesis using False Cons.prems(4) by (simp add: ns'_def)
  qed
  have "delta_loop b' ns' pos' (map Number rest) =
      Some (length ds mod (cols + 1), fold (replay_step cols ds) [Suc k..<length ds] b')"
    using c' d p' n' k by (intro Cons.IH) simp_all
  then show ?case
    unfolding step using k by (simp add: upt_conv_Cons b')
qed

lemma cb_delta_fromstring_numbers:
  "cb_delta_fromstring cb (map Number ds) =
     (if length ds mod (columns cb + 1) \<noteq> 0
      then Some (Inl (Runtime_error ''fromstring() invalid delta''), replay_deltas cb ds)
      else Some (Inr [], replay_deltas cb ds))"
  using delta_loop_numbers [of cb "columns cb" 0 ds ds 0 "Finite 0"]
  by (simp add: cb_delta_fromstring_def replay_deltas_def)

lemma read_double_numbers:
  "read_double (map Number ds) = (case ds of [] \<Rightarrow> None | d # ds' \<Rightarrow> Some (d, map Number ds'))"
  by (cases ds) simp_all

lemma read_values_numbers:
  assumes "pos \<le> len" and "len \<le> length vs"
  shows "read_values vs pos len (map Number xs) =
    (pos + min (len - pos) (length xs),
     take pos vs @ take (len - pos) xs @ drop (pos + min (len - pos) (length xs)) vs,
     map Number (drop (len - pos) xs))"
  using assms
proof (induction xs arbitrary: vs pos)
  case Nil
  then show ?case by (subst read_values.simps) simp
next
  case (Cons x xs)
  show ?case
  proof (cases "pos < len")
    case False
    then have "pos = len" using Cons.prems by simp
    then show ?thesis by (subst read_values.simps) simp
  next
    case True
    then have p: "pos < length vs" using Cons.prems by simp
    have s: "len - pos = Suc (len - Suc pos)" using True by simp
    have t: "take (Suc pos) (vs[pos := x]) = take pos vs @ [x]"
      using p by (simp add: take_Suc_conv_app_nth)
    have "read_values vs pos len (map Number (x # xs)) =
        read_values (vs[pos := x]) (Suc pos) len (map Number xs)"
      using True by (subst read_values.simps) simp
    also have "\<dots> = (Suc pos + min (len - Suc pos) (length xs),
       take (Suc pos) (vs[pos := x]) @ take (len - Suc pos) xs @
         drop (Suc pos + min (len - Suc pos) (length xs)) (vs[pos := x]),
       map Number (drop (len - Suc pos) xs))"
      using True Cons.prems by (intro Cons.IH) simp_all
    finally show ?thesis
      unfolding t by (simp add: s)
  qed
qed

lemma len_fromstring:
  assumes "valid_buffer cb"
  shows "uint32_of (int (rows cb) * int (columns cb)) = rows cb * columns cb"
proof -
  have "rows cb * columns cb < 2 ^ 32"
    using assms by (simp add: valid_buffer_def)
  then show ?thesis
    using uint32_of_nat [of "rows cb * columns cb"] by simp
qed

lemma cb_fromstring_numbers:
  assumes v: "valid_buffer cb"
  shows "cb_fromstring cb t r (map Number xs) =
    (let len = rows cb * columns cb;
         cb1 = cb\<lparr>current_time := t, current_row := uint32_of (int r)\<rparr>
     in if length xs < len
        then Some (Inl (Runtime_error ''fromstring() too few values''),
                   cb1\<lparr>vals := xs @ drop (length xs) (vals cb)\<rparr>)
        else if delta cb then
          if (length xs - len) mod (columns cb + 1) \<noteq> 0
          then Some (Inl (Runtime_error ''fromstring() invalid delta''),
                     replay_deltas (cb1\<lparr>vals := take len xs\<rparr>) (drop len xs))
          else Some (Inr (), replay_deltas (cb1\<lparr>vals := take len xs\<rparr>) (drop len xs))
        else if len < length xs
          then Some (Inl (Runtime_error ''fromstring() too many values''),
                     cb1\<lparr>vals := take len xs\<rparr>)
          else Some (Inr (), cb1\<lparr>vals := xs\<rparr>))"
proof -
  define len where "len = rows cb * columns cb"
  have l: "uint32_of (int (rows cb) * int (columns cb)) = len"
    unfolding len_def using v by (rule len_fromstring)
  have lv: "length (vals cb) = len" using v by (simp add: valid_buffer_def len_def)
  have rv: "read_values (vals cb) 0 len (map Number xs) =
      (min len (length xs), take len xs @ drop (min len (length xs)) (vals cb),
       map Number (drop len xs))"
    using read_values_numbers [of 0 len "vals cb" xs] lv by simp
  show ?thesis
  proof (cases "length xs < len")
    case True
    then show ?thesis
      unfolding cb_fromstring_def len_def [symmetric]
      by (simp add: Let_def l rv min_def)
  next
    case False
    then have m: "min len (length xs) = len" by simp
    have e: "take len xs = xs" if "\<not> len < length xs" using that by simp
    have n: "drop len xs = [] \<longleftrightarrow> \<not> len < length xs" by auto
    have rd: "read_double (map Number (drop len xs)) = None \<longleftrightarrow> \<not> len < length xs"
    proof -
      have "read_double (map Number ds) = None \<longleftrightarrow> ds = []" for ds
        by (cases ds) simp_all
      then show ?thesis by (simp add: not_less del: read_double.simps)
    qed
    have rd': "read_double [] = None" by simp
    show ?thesis
    proof (cases "delta cb")
      case True
      then show ?thesis
        unfolding cb_fromstring_def len_def [symmetric]
        using False
        by (simp add: Let_def l rv m lv cb_delta_fromstring_numbers)
    next
      case d: False
      show ?thesis
      proof (cases "len < length xs")
        case True
        then obtain y where "read_double (map Number (drop len xs)) = Some y"
          using rd by (cases "read_double (map Number (drop len xs))") simp_all
        then show ?thesis
          unfolding cb_fromstring_def len_def [symmetric]
          using False d True by (simp add: Let_def l rv m lv)
      next
        case f: False
        then have "read_double (map Number (drop len xs)) = None" using rd by simp
        then show ?thesis
          unfolding cb_fromstring_def len_def [symmetric]
          using False d f by (simp add: Let_def l rv m lv e)
      qed
    qed
  qed
qed


lemma replay_deltas_fields [simp]:
  "vals (replay_deltas b ds) = vals b"
  "columns (replay_deltas b ds) = columns b"
  "current_time (replay_deltas b ds) = current_time b"
  "current_row (replay_deltas b ds) = current_row b"
proof -
  have "vals (fold (replay_step c ds) ks b) = vals b \<and>
        columns (fold (replay_step c ds) ks b) = columns b \<and>
        current_time (fold (replay_step c ds) ks b) = current_time b \<and>
        current_row (fold (replay_step c ds) ks b) = current_row b" for c ks
    by (induction ks arbitrary: b) (simp_all add: replay_step_def)
  then show "vals (replay_deltas b ds) = vals b"
    "columns (replay_deltas b ds) = columns b"
    "current_time (replay_deltas b ds) = current_time b"
    "current_row (replay_deltas b ds) = current_row b"
    by (simp_all add: replay_deltas_def)
qed

lemma same_cursor_refl [simp]: "same_cursor a a"
  by (simp add: same_cursor_def)

lemma same_cursor_valid:
  "same_cursor a b \<Longrightarrow> valid_buffer b \<Longrightarrow> valid_buffer a"
  by (simp add: same_cursor_def valid_buffer_def)

lemma same_cursor_inv:
  "same_cursor a b \<Longrightarrow> cursor_inv b \<Longrightarrow> cursor_inv a"
  by (simp add: same_cursor_def cursor_inv_def)

lemma cursor_inv_check_row:
  assumes "valid_buffer cb" and "cursor_inv cb"
  shows "cursor_inv (snd (check_row cb ns advance))"
proof -
  have "0 < rows cb" using assms(1) by (simp add: valid_buffer_def)
  then have "uint32_of x mod rows cb < rows cb" for x by simp
  then show ?thesis
    using assms(2) unfolding check_row_eq [OF assms(1)]
    by (simp add: cursor_inv_def aligned_time_def c_mod_aligned)
qed

lemma same_cursor_cb_add_delta [simp]:
  "same_cursor (cb_add_delta b ns column v) c = same_cursor b c"
  by (simp add: same_cursor_def)

lemma same_cursor_vals_update [simp]:
  "same_cursor (b\<lparr>vals := (vals b)[i := v]\<rparr>) c = same_cursor b c"
  by (simp add: same_cursor_def)

lemma cb_add_cursor:
  "\<exists>ns advance. same_cursor (snd (cb_add cb a b c)) (snd (check_row cb ns advance))"
proof (cases a)
  case (Given ns)
  obtain row cb1 where r: "check_row cb ns True = (row, cb1)" by (cases "check_row cb ns True")
  then have cb1: "cb1 = snd (check_row cb ns True)" by simp
  have "same_cursor (snd (cb_add cb a b c)) cb1"
    unfolding cb_add_def Given
    by (simp add: r Let_def split: sum.splits)
  then show ?thesis unfolding cb1 by blast
next
  case Absent
  have "same_cursor (snd (cb_add cb a b c)) (snd (check_row cb NAN False))"
    by (simp add: cb_add_def Absent)
  then show ?thesis by blast
next
  case Ill_typed
  have "same_cursor (snd (cb_add cb a b c)) (snd (check_row cb NAN False))"
    by (simp add: cb_add_def Ill_typed)
  then show ?thesis by blast
qed

lemma cb_set_cursor:
  "\<exists>ns advance. same_cursor (snd (cb_set cb a b c)) (snd (check_row cb ns advance))"
proof (cases a)
  case (Given ns)
  obtain row cb1 where r: "check_row cb ns True = (row, cb1)" by (cases "check_row cb ns True")
  then have cb1: "cb1 = snd (check_row cb ns True)" by simp
  have "same_cursor (snd (cb_set cb a b c)) cb1"
    unfolding cb_set_def Given
    by (simp add: r Let_def split: sum.splits COLUMN_AGGREGATION.splits)
  then show ?thesis unfolding cb1 by blast
next
  case Absent
  have "same_cursor (snd (cb_set cb a b c)) (snd (check_row cb NAN False))"
    by (simp add: cb_set_def Absent)
  then show ?thesis by blast
next
  case Ill_typed
  have "same_cursor (snd (cb_set cb a b c)) (snd (check_row cb NAN False))"
    by (simp add: cb_set_def Ill_typed)
  then show ?thesis by blast
qed

lemma check_row_no_advance_snd: "check_row cb ns False = (row, cb1) \<Longrightarrow> cb1 = cb"
  using check_row_no_advance [of cb ns] by simp

lemma cb_get_buffer: "snd (cb_get cb a b) = cb"
proof (cases a)
  case (Given ns)
  show ?thesis
    unfolding cb_get_def Given
    by (auto simp: Let_def split: sum.splits prod.splits dest: check_row_no_advance_snd)
qed (simp_all add: cb_get_def)

lemma cb_get_range_buffer:
  "cb_get_range cb a b c = Some r \<Longrightarrow> snd r = cb"
  unfolding cb_get_range_def
  by (auto simp: Let_def split: sum.splits prod.splits if_splits option.splits
      dest!: check_row_no_advance_snd)

lemma cb_set_header_cursor: "same_cursor (snd (cb_set_header cb a b c d)) cb"
  unfolding cb_set_header_def
  by (simp add: Let_def same_cursor_def split: sum.splits)

lemma cb_format_cursor: "same_cursor (snd (cb_format cb a)) cb"
  unfolding cb_format_def
  by (simp add: same_cursor_def split: sum.splits)

lemma delta_loop_cursor:
  assumes "delta_loop b ns pos p = Some res"
  shows "same_cursor (snd res) b"
proof (rule delta_loop.raw_induct
    [where P = "\<lambda>b ns pos p res. same_cursor (snd res) b", OF _ assms], goal_cases)
  case (1 delta_loop' cb ns pos p res)
  show ?case
  proof (cases "read_double p")
    case None
    then show ?thesis using 1(2) by auto
  next
    case (Some a)
    obtain v p' where a: "a = (v, p')" by (cases a)
    have "delta_loop' (if pos = 0 then cb else cb_add_delta cb ns (pos - 1) v)
        (if pos = 0 then dscale v 1000000000 else ns)
        (if pos = columns cb then 0 else pos + 1) p' = Some res"
      using 1(2) by (simp add: Some a)
    then have "same_cursor (snd res) (if pos = 0 then cb else cb_add_delta cb ns (pos - 1) v)"
      by (rule 1(1))
    then show ?thesis by (simp add: same_cursor_def split: if_splits)
  qed
qed

lemma length_read_values:
  "read_values vs pos len p = (pos', vs', p') \<Longrightarrow> length vs' = length vs"
proof (induction vs pos len p arbitrary: pos' vs' p' rule: read_values.induct)
  case (1 vs pos len p)
  show ?case
  proof (cases "pos < len")
    case False
    then show ?thesis using "1.prems" by (subst (asm) read_values.simps) simp
  next
    case True
    show ?thesis
    proof (cases "read_double p")
      case None
      then show ?thesis using "1.prems" True by (subst (asm) read_values.simps) simp
    next
      case (Some a)
      obtain v q where a: "a = (v, q)" by (cases a)
      have "read_values (vs[pos := v]) (Suc pos) len q = (pos', vs', p')"
        using "1.prems" True by (subst (asm) read_values.simps) (simp add: Some a)
      then have "length vs' = length (vs[pos := v])"
        using True Some a by (intro "1.IH") simp_all
      then show ?thesis by simp
    qed
  qed
qed

lemma cb_fromstring_cursor:
  assumes "cb_fromstring cb t r p = Some res"
  shows "same_cursor (snd res) (cb\<lparr>current_time := t, current_row := uint32_of (int r)\<rparr>)"
proof -
  define cb1 where "cb1 = cb\<lparr>current_time := t, current_row := uint32_of (int r)\<rparr>"
  define len where "len = uint32_of (int (rows cb1) * int (columns cb1))"
  obtain pos vs p1 where rv: "read_values (vals cb1) 0 len p = (pos, vs, p1)"
    by (cases "read_values (vals cb1) 0 len p")
  have lv: "length vs = length (vals cb1)"
    using rv by (rule length_read_values)
  define cb2 where "cb2 = cb1\<lparr>vals := vs\<rparr>"
  have s2: "same_cursor cb2 cb1" by (simp add: cb2_def same_cursor_def lv)
  have d: "same_cursor cb3 cb2" if "cb_delta_fromstring cb2 p1 = Some (x, cb3)" for x cb3
    using that delta_loop_cursor [of cb2 "Finite 0" 0 p1]
    by (auto simp: cb_delta_fromstring_def split: option.splits prod.splits if_splits)
  have e: "cb_fromstring cb t r p =
      (if pos = len then
         (case (if delta cb2 then cb_delta_fromstring cb2 p1 else Some (Inr p1, cb2)) of
            None \<Rightarrow> None
          | Some (Inl e, cb3) \<Rightarrow> Some (Inl e, cb3)
          | Some (Inr p2, cb3) \<Rightarrow>
              (case read_double p2 of
                 Some _ \<Rightarrow> Some (Inl (Runtime_error ''fromstring() too many values''), cb3)
               | None \<Rightarrow> Some (Inr (), cb3)))
       else Some (Inl (Runtime_error ''fromstring() too few values''), cb2))"
    unfolding cb_fromstring_def Let_def cb1_def [symmetric] len_def [symmetric]
    by (simp add: rv cb2_def)
  have "same_cursor (snd res) cb2"
  proof (cases "pos = len \<and> delta cb2")
    case True
    then show ?thesis
      using assms d unfolding e
      by (auto split: option.splits prod.splits sum.splits)
  next
    case False
    then show ?thesis
      using assms unfolding e
      by (auto split: option.splits prod.splits sum.splits if_splits)
  qed
  then show ?thesis
    using s2 unfolding cb1_def by (simp add: same_cursor_def)
qed


lemma cb_new_valid:
  assumes r: "1 < r" and c: "0 < c" and s: "0 < s"
    and rc: "r * c < 2 ^ 31" and sr: "s * (r - 1) < 2 ^ 31"
  shows "\<exists>cb. cb_new mem r c s d = Inr cb \<and> valid_buffer cb \<and> cursor_inv cb \<and>
    current_time cb = s * (r - 1) \<and> current_row cb = nat (r - 1) \<and>
    rows cb = nat r \<and> columns cb = nat c \<and> seconds_per_row cb = nat s \<and>
    get_start_time cb = 0"
proof -
  have "r * 1 \<le> r * c" using r c by (intro mult_left_mono) simp_all
  then have r31: "r < 2 ^ 31" using rc by simp
  have "1 * c \<le> r * c" using r c by (intro mult_right_mono) simp_all
  then have c31: "c < 2 ^ 31" using rc by simp
  have "s * 1 \<le> s * (r - 1)" using r s by (intro mult_left_mono) simp_all
  then have s31: "s < 2 ^ 31" using sr by simp
  have ur: "uint32_of r = nat r" using r r31 by (intro uint32_of_id) simp_all
  have uc: "uint32_of c = nat c" using c c31 by (intro uint32_of_id) simp_all
  have us: "uint32_of s = nat s" using s s31 by (intro uint32_of_id) simp_all
  have ir: "int32_of (r - 1) = r - 1" using r r31 by (intro int32_of_id) simp_all
  have ur1: "uint32_of (r - 1) = nat (r - 1)" using r r31 by (intro uint32_of_id) simp_all
  have sr0: "0 \<le> s * (r - 1)" using r s by simp
  have it: "int32_of (s * (r - 1)) = s * (r - 1)" using sr sr0 by (intro int32_of_id) simp_all
  define cb0 where "cb0 =
     \<lparr>current_time = s * (r - 1), seconds_per_row = nat s, current_row = nat (r - 1),
      rows = nat r, columns = nat c, delta = d, format = OUTPUT_CBUF, ref = None,
      headers =
        map (\<lambda>column_idx.
              \<lparr>name = take (COLUMN_NAME_SIZE - 1) (''Column_'' @ decimal (column_idx + 1)),
               unit_label = strncpy default_unit (UNIT_LABEL_SIZE - 1),
               aggregation = AGGREGATION_SUM\<rparr>)
          [0..<nat c],
      vals = map mem [0..<nat (r * c)]\<rparr>"
  define cb where "cb = clear_rows cb0 (nat r)"
  have new: "cb_new mem r c s d = Inr cb"
    using r c s by (simp add: cb_new_def Let_def ur uc us ir ur1 it cb_def cb0_def)
  have f: "current_time cb = s * (r - 1)" "current_row cb = nat (r - 1)" "rows cb = nat r"
    "columns cb = nat c" "seconds_per_row cb = nat s" "length (headers cb) = nat c"
    "length (vals cb) = nat (r * c)"
    by (simp_all add: cb_def cb0_def)
  have m: "nat r * nat c = nat (r * c)" using r c by (simp add: nat_mult_distrib)
  have n: "nat s * (nat r - 1) = nat (s * (r - 1))"
    using r s by (simp add: nat_mult_distrib nat_diff_distrib')
  have b: "nat (r * c) < 2 ^ 31" "nat (s * (r - 1)) < 2 ^ 31" "nat (r - 1) < 2 ^ 32"
    using rc sr r31 by simp_all
  have v: "valid_buffer cb"
    unfolding valid_buffer_def f m n using r c s b by simp
  have "\<bar>s * (r - 1)\<bar> mod \<bar>s\<bar> = 0" using r s by simp
  then have i: "cursor_inv cb"
    unfolding cursor_inv_def f using r s by (simp add: c_mod_def)
  have u1: "uint32_of (int (nat r) - 1) = nat (r - 1)" using r ur1 by simp
  have u2: "uint32_of (int (nat s) * int (nat (r - 1))) = nat (s * (r - 1))"
    using r s sr sr0 by (intro uint32_of_id [THEN trans]) simp_all
  have g: "get_start_time cb = 0"
    unfolding get_start_time_def f u1 u2 using sr0 by simp
  show ?thesis using new v i f g by blast
qed

lemma get_start_time_eq:
  assumes "valid_buffer cb"
  shows "get_start_time cb = current_time cb - int (seconds_per_row cb) * (int (rows cb) - 1)"
proof -
  have r: "1 < rows cb" "rows cb < 2 ^ 31" "seconds_per_row cb * (rows cb - 1) < 2 ^ 31"
    using assms valid_buffer_rows31 [OF assms] by (simp_all add: valid_buffer_def)
  have u1: "uint32_of (int (rows cb) - 1) = rows cb - 1"
    using r uint32_of_nat [of "rows cb - 1"] by (simp add: of_nat_diff)
  have u2: "uint32_of (int (seconds_per_row cb) * int (rows cb - 1)) =
      seconds_per_row cb * (rows cb - 1)"
    using r uint32_of_nat [of "seconds_per_row cb * (rows cb - 1)"] by simp
  show ?thesis
    unfolding get_start_time_def u1 u2 using r by (simp add: of_nat_diff)
qed

lemma c_mod_0_dvd: "0 < b \<Longrightarrow> c_mod a b = 0 \<Longrightarrow> b dvd a"
  by (cases "a = 0") (auto simp: c_mod_def sgn_if split: if_splits)

lemma c_div_dvd: "0 < b \<Longrightarrow> b dvd a \<Longrightarrow> c_div a b = a div b"
proof -
  assume b: "0 < b" and d: "b dvd a"
  then obtain k where k: "a = b * k" by (auto simp: dvd_def)
  have "\<bar>a\<bar> div \<bar>b\<bar> = \<bar>k\<bar>" using b by (simp add: k abs_mult)
  moreover have "sgn a = sgn k" using b by (simp add: k sgn_mult)
  ultimately show ?thesis using b by (simp add: c_div_def k sgn_mult_abs)
qed

lemma check_row_window:
  assumes v: "valid_buffer cb" and i: "cursor_inv cb"
    and q: "- (2 ^ 31) \<le> aligned_time cb ns div int (seconds_per_row cb)"
      "aligned_time cb ns div int (seconds_per_row cb) < 2 ^ 31"
    and k: "- (2 ^ 31) \<le> current_time cb div int (seconds_per_row cb)"
      "current_time cb div int (seconds_per_row cb) < 2 ^ 31"
    and d: "\<bar>aligned_time cb ns div int (seconds_per_row cb) -
             current_time cb div int (seconds_per_row cb)\<bar> < 2 ^ 31"
  shows "fst (check_row cb ns False) \<noteq> - 1 \<longleftrightarrow>
    get_start_time cb \<le> aligned_time cb ns \<and> aligned_time cb ns \<le> current_time cb"
proof -
  define spr where "spr = int (seconds_per_row cb)"
  define t where "t = aligned_time cb ns"
  define req where "req = t div spr"
  define cur where "cur = current_time cb div spr"
  have spr: "0 < spr" using v by (simp add: spr_def valid_buffer_def)
  have rows: "1 < rows cb" using v by (simp add: valid_buffer_def)
  have dt: "spr dvd t"
    using c_mod_aligned [of "time_of_ns ns" spr] spr
    by (intro c_mod_0_dvd) (simp_all add: t_def aligned_time_def spr_def)
  have dc: "spr dvd current_time cb"
    using i spr by (intro c_mod_0_dvd) (simp_all add: cursor_inv_def spr_def)
  have t: "t = spr * req" using dt by (simp add: req_def)
  have ct: "current_time cb = spr * cur" using dc by (simp add: cur_def)
  have rn: "row_number cb t = req"
    unfolding row_number_def spr_def [symmetric] c_div_dvd [OF spr dt] req_def
    using q by (intro int32_of_id) (simp_all add: t_def spr_def)
  have cn: "row_number cb (current_time cb) = cur"
    unfolding row_number_def spr_def [symmetric] c_div_dvd [OF spr dc] cur_def
    using k by (intro int32_of_id) (simp_all add: spr_def)
  have d': "\<bar>req - cur\<bar> < 2 ^ 31" using d by (simp add: req_def cur_def t_def spr_def)
  have rd: "row_delta cb ns = req - cur"
    unfolding row_delta_def t_def [symmetric] rn cn
    using d' by (intro int32_of_id) simp_all
  have ca: "c_abs (row_delta cb ns) = \<bar>req - cur\<bar>"
    unfolding rd c_abs_def using d' by (intro int32_of_id) simp_all
  have "0 \<le> int (uint32_of x mod rows cb)" for x by simp
  then have "fst (check_row cb ns False) \<noteq> - 1 \<longleftrightarrow>
      \<not> (req > cur \<or> \<bar>req - cur\<bar> \<ge> int (rows cb))"
    unfolding check_row_delta [OF v] t_def [symmetric] rn cn ca by (auto simp: abs_if)
  also have "\<dots> \<longleftrightarrow> cur - (int (rows cb) - 1) \<le> req \<and> req \<le> cur"
    by (auto simp: abs_if)
  also have "\<dots> \<longleftrightarrow> spr * (cur - (int (rows cb) - 1)) \<le> spr * req \<and> spr * req \<le> spr * cur"
    using spr by simp
  also have "\<dots> \<longleftrightarrow> get_start_time cb \<le> t \<and> t \<le> current_time cb"
    unfolding get_start_time_eq [OF v] spr_def [symmetric] t [symmetric] ct [symmetric]
    by (simp add: ct right_diff_distrib)
  finally show ?thesis by (simp add: t_def)
qed


lemma valid_new_3x1_2s: "valid_buffer new_3x1_2s"
  by (simp add: valid_buffer_def new_3x1_2s_def fresh_3x1_def)

section \<open>The claims\<close>

text \<open>
  Claim C4. On a valid buffer and for every \<open>k >= 1\<close>, \<open>clear_rows\<close> with its
  doubling copy is equal to the row-by-row clearing of the \<open>min k rows\<close> rows that
  follow the current row, wrapping at the end of the array: it keeps the length of the
  array, sets exactly the cells of those rows to NaN and leaves every other cell as it
  was; for \<open>k >= rows\<close> every cell is NaN.
\<close>

theorem clear_rows_refines_naive_clear:
  assumes "valid_buffer cb" and "1 \<le> k"
  shows "clear_rows cb k = naive_clear_rows cb k \<and>
    length (vals (clear_rows cb k)) = length (vals cb) \<and>
    (\<forall>i<length (vals cb).
       vals (clear_rows cb k) ! i =
         (if \<exists>j<min k (rows cb). i div columns cb = (next_row cb + j) mod rows cb
          then NAN else vals cb ! i)) \<and>
    (rows cb \<le> k \<longrightarrow> vals (clear_rows cb k) = replicate (rows cb * columns cb) NAN)"
proof -
  define n where "n = min k (rows cb)"
  define s where "s = next_row cb"
  have r: "1 < rows cb" "0 < columns cb" "length (vals cb) = rows cb * columns cb"
    using assms(1) by (simp_all add: valid_buffer_def)
  have n: "n \<le> rows cb" by (simp add: n_def)
  have s: "s < rows cb" using r(1) by (simp add: s_def next_row_less)
  have len: "length (vals (clear_rows cb k)) = length (vals cb)"
    unfolding vals_clear_rows_unwrapped [OF assms] by (simp add: Let_def)
  have nth: "vals (clear_rows cb k) ! i =
      (if \<exists>j<n. i div columns cb = (s + j) mod rows cb then NAN else vals cb ! i)"
    if "i < length (vals cb)" for i
    using nth_clear_rows [OF assms that] cleared_range_iff [OF r(2) s n, of i] that
    by (simp only: n_def s_def r(3))
  have naive: "vals (naive_clear_rows cb k) ! i =
      (if \<exists>j<n. i div columns cb = (s + j) mod rows cb then NAN else vals cb ! i)"
    if "i < length (vals cb)" for i
    using nth_naive_clear [OF r(2) s that, of n] by (simp add: naive_clear_rows_def n_def s_def)
  have "vals (clear_rows cb k) = vals (naive_clear_rows cb k)"
    by (rule nth_equalityI) (simp_all add: len naive_clear_rows_def nth naive [unfolded naive_clear_rows_def, simplified])
  then have eq: "clear_rows cb k = naive_clear_rows cb k"
    using clear_rows_fields [of cb k] by (simp add: naive_clear_rows_def)
  have full: "vals (clear_rows cb k) = replicate (rows cb * columns cb) NAN" if "rows cb \<le> k"
  proof (rule nth_equalityI)
    show "length (vals (clear_rows cb k)) = length (replicate (rows cb * columns cb) NAN)"
      by (simp add: len r(3))
  next
    fix i assume "i < length (vals (clear_rows cb k))"
    then have i: "i < rows cb * columns cb" by (simp add: len r(3))
    have nn: "n = rows cb" using that by (simp add: n_def)
    have "i div columns cb < rows cb"
      using i r(2) div_less_iff_less_mult [of "columns cb" i "rows cb"] by blast
    then have "\<exists>j<n. i div columns cb = (s + j) mod rows cb"
      using ring_rows_iff [OF s n, of "i div columns cb"] nn by auto
    then show "vals (clear_rows cb k) ! i = replicate (rows cb * columns cb) NAN ! i"
      using nth [of i] i by (simp add: r(3))
  qed
  show ?thesis
    using eq len nth full by (simp add: n_def s_def)
qed

theorem clear_rows_refines_naive_clear_witness:
  "valid_buffer example_grid \<and> (1::nat) \<le> 4 \<and>
   clear_rows example_grid 4 = naive_clear_rows example_grid 4 \<and>
   vals (clear_rows example_grid 4) =
     [NAN, NAN, NAN, NAN, Finite 4, Finite 5, Finite 6, Finite 7, Finite 8, Finite 9,
      NAN, NAN, NAN, NAN] \<and>
   vals (clear_rows example_grid 9) = replicate 14 NAN"
proof -
  have v: "valid_buffer example_grid"
    by (simp add: valid_buffer_def example_grid_def)
  have e: "vals (naive_clear_rows example_grid 4) =
     [NAN, NAN, NAN, NAN, Finite 4, Finite 5, Finite 6, Finite 7, Finite 8, Finite 9,
      NAN, NAN, NAN, NAN]"
    by (simp add: naive_clear_rows_def next_row_def example_grid_def set_row_nan_def
        eval_nat_numeral upt_rec)
  have k: "(1::nat) \<le> 4" "(1::nat) \<le> 9" by simp_all
  have a: "clear_rows example_grid 4 = naive_clear_rows example_grid 4"
    using clear_rows_refines_naive_clear [OF v k(1)] by blast
  have "rows example_grid \<le> 9 \<longrightarrow>
      vals (clear_rows example_grid 9) =
        replicate (rows example_grid * columns example_grid) NAN"
    using clear_rows_refines_naive_clear [OF v k(2)] by blast
  moreover have "rows example_grid * columns example_grid = 14" "rows example_grid \<le> 9"
    by (simp_all add: example_grid_def)
  ultimately have b: "vals (clear_rows example_grid 9) = replicate 14 NAN"
    by simp
  show ?thesis
    using v e by (simp only: a b) simp
qed

text \<open>
  Claim C10. On a valid buffer, for every timestamp (negative ones and ones far before the
  window included) row resolution returns the rejection value -1 or a row in
  \<open>[0, rows)\<close>; with a column in range the index of the cell lies within the array of
  cells, and no access of get, add, set or get_range leaves the array, whatever the
  arguments.
\<close>

theorem row_index_in_bounds:
  assumes "valid_buffer cb"
  shows "(fst (check_row cb ns advance) = - 1 \<or>
      (0 \<le> fst (check_row cb ns advance) \<and> fst (check_row cb ns advance) < int (rows cb))) \<and>
    (fst (check_row cb ns advance) \<noteq> - 1 \<and> column < columns cb \<longrightarrow>
       cell_index (snd (check_row cb ns advance)) (fst (check_row cb ns advance)) column
         < length (vals (snd (check_row cb ns advance)))) \<and>
    fst (cb_get cb ns_arg col_arg) \<noteq> Inl Out_of_bounds \<and>
    fst (cb_add cb ns_arg col_arg val_arg) \<noteq> Inl Out_of_bounds \<and>
    fst (cb_set cb ns_arg col_arg val_arg) \<noteq> Inl Out_of_bounds \<and>
    (\<exists>r. cb_get_range cb col_arg start_arg end_arg = Some r \<and> fst r \<noteq> Inl Out_of_bounds)"
proof -
  have "cell_index (snd (check_row cb ns advance)) (fst (check_row cb ns advance)) column
         < length (vals (snd (check_row cb ns advance)))"
    if "fst (check_row cb ns advance) \<noteq> - 1" "column < columns cb"
  proof -
    have r: "check_row cb ns advance = (fst (check_row cb ns advance), snd (check_row cb ns advance))"
      by simp
    show ?thesis
      using cell_in_bounds(1,2) [OF assms r that] by simp
  qed
  then show ?thesis
    using check_row_row_range [OF assms, of ns advance] cb_get_in_bounds [OF assms]
      cb_add_in_bounds [OF assms] cb_set_in_bounds [OF assms] cb_get_range_total [OF assms]
    by blast
qed

theorem row_index_in_bounds_witness:
  "valid_buffer restored_at_0 \<and>
   fst (check_row restored_at_0 (Finite (- 1000000000)) False) = 0 \<and>
   fst (check_row restored_at_0 (Finite (- 9000000000)) False) = - 1 \<and>
   cell_index restored_at_0 0 0 < length (vals restored_at_0) \<and>
   fst (cb_get restored_at_0 (Given (Finite (- 1000000000))) (Given 1)) \<noteq> Inl Out_of_bounds \<and>
   fst (cb_add restored_at_0 (Given (Finite (- 1000000000))) (Given 1) (Given (Finite 1)))
     \<noteq> Inl Out_of_bounds"
proof -
  note v = valid_restored_at_0
  have r: "check_row restored_at_0 (Finite (- 1000000000)) False = (0, restored_at_0)"
    "fst (check_row restored_at_0 (Finite (- 9000000000)) False) = - 1"
    by (simp_all add: restored_at_0_def fresh_3x1_def eval_defs)
  have c: "(0::nat) < columns restored_at_0" by (simp add: restored_at_0_def fresh_3x1_def)
  have "cell_index restored_at_0 0 0 < length (vals restored_at_0)"
    using row_index_in_bounds [OF v, of "Finite (- 1000000000)" False 0] c by (simp add: r)
  moreover have "fst (cb_get restored_at_0 (Given (Finite (- 1000000000))) (Given 1))
      \<noteq> Inl Out_of_bounds"
    using row_index_in_bounds [OF v] by blast
  moreover have "fst (cb_add restored_at_0 (Given (Finite (- 1000000000))) (Given 1)
      (Given (Finite 1))) \<noteq> Inl Out_of_bounds"
    using row_index_in_bounds [OF v] by blast
  ultimately show ?thesis using v r by simp
qed

text \<open>
  Claim C1 has an accepted request resolve to the requested row number mod \<open>rows\<close>.
  \<open>check_row\<close> computes \<open>requested_row % cb->rows\<close> in \<open>unsigned\<close>, which for a negative
  row number is another row. After \<open>fromstring("0 0 10 20 30")\<close> on a new buffer of three
  rows of one second, the timestamp of second -1 has row number -1, lies in the window
  and resolves to row 0, the row of second 0, where -1 mod 3 is 2: \<open>get\<close> returns for
  second -1 the cell of second 0.
\<close>

theorem check_row_negative_row:
  "cb_new (\<lambda>i. NAN) 3 1 1 False = Inr fresh_3x1 \<and>
   cb_fromstring fresh_3x1 0 0 [Number (Finite 10), Number (Finite 20), Number (Finite 30)] =
     Some (Inr (), restored_at_0) \<and>
   row_number restored_at_0 (aligned_time restored_at_0 (Finite (- 1000000000))) = - 1 \<and>
   row_number restored_at_0 (current_time restored_at_0) = 0 \<and>
   rows restored_at_0 = 3 \<and> (- 1 :: int) mod 3 = 2 \<and>
   check_row restored_at_0 (Finite (- 1000000000)) False = (0, restored_at_0) \<and>
   check_row restored_at_0 (Finite (- 1000000000)) True = (0, restored_at_0) \<and>
   check_row restored_at_0 (Finite 0) False = (0, restored_at_0) \<and>
   cb_get restored_at_0 (Given (Finite (- 1000000000))) (Given 1) =
     (Inr (Some (Finite 10)), restored_at_0) \<and>
   cb_get restored_at_0 (Given (Finite 0)) (Given 1) = (Inr (Some (Finite 10)), restored_at_0)"
proof -
  have "cb_new (\<lambda>i. NAN) 3 1 1 False = Inr fresh_3x1"
    by code_simp
  moreover have "cb_fromstring fresh_3x1 0 0 [Number (Finite 10), Number (Finite 20), Number (Finite 30)] =
     Some (Inr (), restored_at_0)"
    by code_simp
  moreover have "row_number restored_at_0 (aligned_time restored_at_0 (Finite (- 1000000000))) = - 1"
    "row_number restored_at_0 (current_time restored_at_0) = 0" "rows restored_at_0 = 3"
    "check_row restored_at_0 (Finite (- 1000000000)) False = (0, restored_at_0)"
    "check_row restored_at_0 (Finite (- 1000000000)) True = (0, restored_at_0)"
    "check_row restored_at_0 (Finite 0) False = (0, restored_at_0)"
    by (simp_all add: restored_at_0_def fresh_3x1_def eval_defs)
  moreover have "check_column restored_at_0 (Given 1) 3 = Inr 0"
    "cell_index restored_at_0 0 0 = 0"
    by (simp_all add: restored_at_0_def fresh_3x1_def check_column_def cell_index_def eval_defs)
  ultimately show ?thesis
    by (simp add: cb_get_def Let_def) (simp add: restored_at_0_def fresh_3x1_def)
qed

text \<open>
  Claim C6, amended. A new buffer of three rows, one column and one second for each row
  has \<open>current_time\<close> 2 and \<open>current_row\<close> 2. \<open>add(0, 1, 5)\<close> writes row 0, and
  \<open>add(2e9, 1, 7)\<close> writes the current row and does not advance the window. After the two
  calls \<open>get(0, 1)\<close> returns 5 and \<open>get(2e9, 1)\<close> returns 7.
\<close>

theorem example_scenario:
  "cb_new mem 3 1 1 False = Inr fresh_3x1 \<and>
   current_time fresh_3x1 = 2 \<and> current_row fresh_3x1 = 2 \<and>
   cb_add fresh_3x1 (Given (Finite 0)) (Given 1) (Given (Finite 5)) =
     (Inr (Some (Finite 5)), after_add_5) \<and>
   cb_add after_add_5 (Given (Finite 2000000000)) (Given 1) (Given (Finite 7)) =
     (Inr (Some (Finite 7)), after_add_5_7) \<and>
   current_time after_add_5_7 = 2 \<and> current_row after_add_5_7 = 2 \<and>
   cb_get after_add_5_7 (Given (Finite 0)) (Given 1) = (Inr (Some (Finite 5)), after_add_5_7) \<and>
   cb_get after_add_5_7 (Given (Finite 2000000000)) (Given 1) =
     (Inr (Some (Finite 7)), after_add_5_7)"
proof -
  have "cb_add fresh_3x1 (Given (Finite 0)) (Given 1) (Given (Finite 5)) =
     (Inr (Some (Finite 5)), after_add_5)"
    "cb_add after_add_5 (Given (Finite 2000000000)) (Given 1) (Given (Finite 7)) =
     (Inr (Some (Finite 7)), after_add_5_7)"
    "cb_get after_add_5_7 (Given (Finite 0)) (Given 1) = (Inr (Some (Finite 5)), after_add_5_7)"
    "cb_get after_add_5_7 (Given (Finite 2000000000)) (Given 1) =
     (Inr (Some (Finite 7)), after_add_5_7)"
    by (simp_all add: fresh_3x1_def after_add_5_def after_add_5_7_def op_eval eval_defs)
  then show ?thesis
    using cb_new_3x1 [of mem] by (simp add: fresh_3x1_def after_add_5_7_def)
qed

text \<open>
  The claim as it is worded fails: the second add does not advance the window, row 0
  stays in it, and \<open>get(0, 1)\<close> returns 5, not nil.
\<close>

theorem example_scenario_counterexample:
  "cb_new (\<lambda>i. NAN) 3 1 1 False = Inr fresh_3x1 \<and>
   snd (cb_add (snd (cb_add fresh_3x1 (Given (Finite 0)) (Given 1) (Given (Finite 5))))
     (Given (Finite 2000000000)) (Given 1) (Given (Finite 7))) = after_add_5_7 \<and>
   cb_get after_add_5_7 (Given (Finite 0)) (Given 1) = (Inr (Some (Finite 5)), after_add_5_7)"
  using cb_new_3x1 [of "\<lambda>i. NAN"]
  by (simp add: fresh_3x1_def after_add_5_7_def op_eval eval_defs)

text \<open>
  Claim C5 has a call of add or set that reports a contract violation leave the buffer
  as it was. Both resolve the row, with advance, before they check the column and the
  value: on the buffer of the example, with cells 5, NaN, 7 and \<open>current_time\<close> 2,
  \<open>add(7e9, 5, 7)\<close> and \<open>set(7e9, 5, 7)\<close> report \<open>column out of range\<close>, and
  \<open>add(7e9, 1, nil)\<close> reports that a number is expected, after the window has advanced to
  second 7 and every cell has been cleared. A timestamp that is not a number is
  reported before anything changes.
\<close>

theorem violation_after_advance:
  "vals after_add_5_7 = [Finite 5, NAN, Finite 7] \<and>
   current_time after_add_5_7 = 2 \<and> current_row after_add_5_7 = 2 \<and>
   vals advanced_to_7 = [NAN, NAN, NAN] \<and>
   current_time advanced_to_7 = 7 \<and> current_row advanced_to_7 = 1 \<and>
   cb_add after_add_5_7 (Given (Finite 7000000000)) (Given 5) (Given (Finite 7)) =
     (Inl (Arg_error 3 ''column out of range''), advanced_to_7) \<and>
   cb_set after_add_5_7 (Given (Finite 7000000000)) (Given 5) (Given (Finite 7)) =
     (Inl (Arg_error 3 ''column out of range''), advanced_to_7) \<and>
   cb_add after_add_5_7 (Given (Finite 7000000000)) (Given 1) Absent =
     (Inl (Arg_error 4 ''number expected''), advanced_to_7) \<and>
   cb_set after_add_5_7 (Given (Finite 7000000000)) (Given 1) Ill_typed =
     (Inl (Arg_error 4 ''number expected''), advanced_to_7) \<and>
   cb_add after_add_5_7 Ill_typed (Given 5) (Given (Finite 7)) =
     (Inl (Arg_error 2 ''number expected''), after_add_5_7)"
  by (simp add: fresh_3x1_def after_add_5_7_def advanced_to_7_def op_eval eval_defs
      clear_rows_def copy_cleared_row_def set_row_nan_def copy_cleared_loop.simps)

text \<open>
  Claim C2. On a valid buffer, an add that is accepted, at a column in range, writes the
  value into the target cell if the cell is NaN and the sum of the cell and the value
  otherwise, returns the new cell and leaves every other cell, the current time and the
  current row as row resolution left them. With delta tracking and a value that is not
  0 it records in the delta log, at the row-aligned timestamp and the column, the value
  for a Sum column and the new cell for any other column: the amount is added to what the
  log holds there, 0 if nothing, and no other entry changes. Without delta tracking or
  with the value 0 the log stays as it is. On \<open>new(3, 1, 1, true)\<close>, the adds of 3 and of 4
  at timestamp 0 leave the cell at 7 and the log with the one entry 7.
\<close>

theorem add_accumulates:
  "(valid_buffer cb \<and> check_row cb ns True = (row, cb1) \<and> row \<noteq> - 1 \<and>
    check_column cb a 3 = Inr column \<longrightarrow>
      (let i = nat row * columns cb + column;
           old = vals cb1 ! i;
           new = (if isnan old then value else dadd old value);
           recorded = (if aggregation (headers cb ! column) = AGGREGATION_SUM then value else new);
           key = int32_of (aligned_time cb ns);
           cb' = snd (cb_add cb (Given ns) a (Given value))
       in fst (cb_add cb (Given ns) a (Given value)) = Inr (Some new) \<and>
          vals cb' = (vals cb1)[i := new] \<and>
          current_time cb' = current_time cb1 \<and> current_row cb' = current_row cb1 \<and>
          (if delta cb \<and> dnonzero value
           then \<forall>t c. delta_entry cb' t c =
                  (if t = key \<and> c = column then Some (dadd recorded (logged cb t c))
                   else delta_entry cb t c)
           else ref cb' = ref cb))) \<and>
   cb_new mem 3 1 1 True = Inr delta_3x1 \<and>
   aggregation (headers delta_3x1 ! 0) = AGGREGATION_SUM \<and>
   cb_add delta_3x1 (Given (Finite 0)) (Given 1) (Given (Finite 3)) =
     (Inr (Some (Finite 3)), after_add_3) \<and>
   cb_add after_add_3 (Given (Finite 0)) (Given 1) (Given (Finite 4)) =
     (Inr (Some (Finite 7)), after_add_3_4) \<and>
   vals after_add_3_4 = [Finite 7, NAN, NAN] \<and>
   ref after_add_3_4 = Some [(0, [(0, Finite 7)])]"
proof -
  have general: "(let i = nat row * columns cb + column;
           old = vals cb1 ! i;
           new = (if isnan old then value else dadd old value);
           recorded = (if aggregation (headers cb ! column) = AGGREGATION_SUM then value else new);
           key = int32_of (aligned_time cb ns);
           cb' = snd (cb_add cb (Given ns) a (Given value))
       in fst (cb_add cb (Given ns) a (Given value)) = Inr (Some new) \<and>
          vals cb' = (vals cb1)[i := new] \<and>
          current_time cb' = current_time cb1 \<and> current_row cb' = current_row cb1 \<and>
          (if delta cb \<and> dnonzero value
           then \<forall>t c. delta_entry cb' t c =
                  (if t = key \<and> c = column then Some (dadd recorded (logged cb t c))
                   else delta_entry cb t c)
           else ref cb' = ref cb))"
    if v: "valid_buffer cb" and r: "check_row cb ns True = (row, cb1)" "row \<noteq> - 1"
      and col: "check_column cb a 3 = Inr column"
  proof -
    have f: "ref cb1 = ref cb" "seconds_per_row cb1 = seconds_per_row cb"
      using check_row_collapse [OF r(1)] by simp_all
    have e: "delta_entry cb1 t c = delta_entry cb t c" for t c
      by (simp add: delta_entry_def f)
    have l: "logged cb1 t c = logged cb t c" for t c
      by (simp add: logged_def e)
    have a: "aligned_time cb1 ns = aligned_time cb ns"
      by (simp add: aligned_time_def f)
    show ?thesis
      unfolding cb_add_eq [OF v r col]
      by (simp add: Let_def delta_entry_cb_add_delta e l a logged_def [symmetric] f
          del: dadd.simps)
  qed
  have new: "cb_new mem 3 1 1 True = Inr delta_3x1"
    by (simp add: cb_new_def delta_3x1_def fresh_3x1_def clear_rows_def copy_cleared_row_def Let_def
      int32_of_def uint32_of_def set_row_nan_def copy_cleared_loop.simps
      COLUMN_NAME_SIZE_def UNIT_LABEL_SIZE_def strncpy_def c_string_def default_unit_def
      decimal_1 upt_3)
  have s: "aggregation (headers delta_3x1 ! 0) = AGGREGATION_SUM"
    by (simp add: delta_3x1_def fresh_3x1_def)
  have a3: "cb_add delta_3x1 (Given (Finite 0)) (Given 1) (Given (Finite 3)) =
     (Inr (Some (Finite 3)), after_add_3)"
    by (simp add: delta_3x1_def fresh_3x1_def after_add_3_def op_eval eval_defs)
  have a4: "cb_add after_add_3 (Given (Finite 0)) (Given 1) (Given (Finite 4)) =
     (Inr (Some (Finite 7)), after_add_3_4)"
    by (simp add: delta_3x1_def fresh_3x1_def after_add_3_def after_add_3_4_def op_eval eval_defs)
  have e: "vals after_add_3_4 = [Finite 7, NAN, NAN]"
    "ref after_add_3_4 = Some [(0, [(0, Finite 7)])]"
    by (simp_all add: after_add_3_4_def)
  show ?thesis
    using general new s a3 a4 e by blast
qed

theorem add_accumulates_witness:
  "valid_buffer max_column_5 \<and>
   check_row max_column_5 (Finite 0) True = (0, max_column_5) \<and> (0::int) \<noteq> - 1 \<and>
   check_column max_column_5 (Given 1) 3 = Inr 0 \<and>
   delta max_column_5 \<and> dnonzero (Finite 2) \<and>
   aggregation (headers max_column_5 ! 0) = AGGREGATION_MAX \<and>
   vals max_column_5 = [Finite 5, NAN, NAN] \<and>
   delta_entry max_column_5 0 0 = Some (Finite 5) \<and>
   fst (cb_add max_column_5 (Given (Finite 0)) (Given 1) (Given (Finite 2))) =
     Inr (Some (Finite 7)) \<and>
   vals (snd (cb_add max_column_5 (Given (Finite 0)) (Given 1) (Given (Finite 2)))) =
     [Finite 7, NAN, NAN] \<and>
   delta_entry (snd (cb_add max_column_5 (Given (Finite 0)) (Given 1) (Given (Finite 2)))) 0 0 =
     Some (Finite 12)"
proof -
  have v: "valid_buffer max_column_5"
    by (simp add: valid_buffer_def max_column_5_def delta_3x1_def fresh_3x1_def)
  have r: "check_row max_column_5 (Finite 0) True = (0, max_column_5)"
    by (simp add: max_column_5_def delta_3x1_def fresh_3x1_def eval_defs)
  have c: "check_column max_column_5 (Given 1) 3 = Inr 0"
    by (simp add: max_column_5_def delta_3x1_def fresh_3x1_def check_column_def eval_defs)
  have d: "delta max_column_5" "dnonzero (Finite 2)"
    "aggregation (headers max_column_5 ! 0) = AGGREGATION_MAX"
    "vals max_column_5 = [Finite 5, NAN, NAN]"
    "delta_entry max_column_5 0 0 = Some (Finite 5)"
    "columns max_column_5 = 1"
    "int32_of (aligned_time max_column_5 (Finite 0)) = 0"
    by (simp_all add: max_column_5_def delta_3x1_def fresh_3x1_def dnonzero_def delta_entry_def
        eval_defs)
  have s: "dadd (Finite 5) (Finite 2) = Finite 7" "dadd (Finite 7) (Finite 5) = Finite 12"
    by (simp_all add: eval_defs)
  have "fst (cb_add max_column_5 (Given (Finite 0)) (Given 1) (Given (Finite 2))) =
     Inr (Some (Finite 7)) \<and>
   vals (snd (cb_add max_column_5 (Given (Finite 0)) (Given 1) (Given (Finite 2)))) =
     [Finite 7, NAN, NAN] \<and>
   delta_entry (snd (cb_add max_column_5 (Given (Finite 0)) (Given 1) (Given (Finite 2)))) 0 0 =
     Some (Finite 12)"
    using add_accumulates [of max_column_5 "Finite 0" 0 max_column_5 "Given 1" 0 "Finite 2"]
      v r c
    by (simp add: d s Let_def isnan_def logged_def del: dadd.simps)
  then show ?thesis
    using v r c d by simp
qed





text \<open>
  Claim C7 has \<open>0 <= current_row < rows\<close> and \<open>current_time % seconds_per_row == 0\<close> hold
  after every operation, \<open>fromstring\<close> among them. \<open>fromstring\<close> stores the current time and
  the current row that it reads (\<open>read_time_row\<close>) and checks neither: on
  \<open>new(3, 1, 2)\<close>, \<open>fromstring("5 7 10 20 30")\<close> succeeds and leaves the current row 7 in a
  buffer of 3 rows and the current time 5 with rows of 2 seconds.
\<close>

theorem cursor_invariant_counterexample:
  "valid_buffer new_3x1_2s \<and> cursor_inv new_3x1_2s \<and>
   cb_fromstring new_3x1_2s 5 7 [Number (Finite 10), Number (Finite 20), Number (Finite 30)] =
     Some (Inr (), restored_5_7) \<and>
   current_row restored_5_7 = 7 \<and> rows restored_5_7 = 3 \<and>
   current_time restored_5_7 = 5 \<and> seconds_per_row restored_5_7 = 2 \<and>
   c_mod (current_time restored_5_7) (int (seconds_per_row restored_5_7)) = 1 \<and>
   \<not> cursor_inv restored_5_7"
proof -
  have "cb_fromstring new_3x1_2s 5 7 (map Number [Finite 10, Finite 20, Finite 30]) =
     Some (Inr (), restored_5_7)"
    unfolding cb_fromstring_numbers [OF valid_new_3x1_2s]
    by (simp add: new_3x1_2s_def fresh_3x1_def restored_5_7_def uint32_of_def)
  then show ?thesis
    using valid_new_3x1_2s
    by (simp add: cursor_inv_def new_3x1_2s_def fresh_3x1_def restored_5_7_def c_mod_def)
qed

text \<open>
  Claim C7, amended. A buffer constructed with sizes whose products \<open>rows * columns\<close> and
  \<open>seconds_per_row * (rows - 1)\<close> fit an \<open>int\<close> satisfies \<open>0 <= current_row < rows\<close> and
  \<open>current_time % seconds_per_row == 0\<close>, and its start time is 0. add, set, get,
  get_range, set_header and format keep the two properties (get and get_range leave the
  buffer as it is). \<open>get_start_time\<close> is \<open>current_time - seconds_per_row * (rows - 1)\<close>, and
  it is the oldest time that can be read: where the row numbers fit an \<open>int\<close>, row
  resolution without advance accepts a timestamp exactly when its row-aligned time lies
  between the start time and the current time. \<open>fromstring\<close>, when it returns, has stored
  the current time and the current row of the string: it keeps the two properties
  exactly when the row read is less than \<open>rows\<close> and the time read is a multiple of
  \<open>seconds_per_row\<close>.
\<close>

theorem cursor_invariant:
  "(1 < r \<and> 0 < c \<and> 0 < s \<and> r * c < 2 ^ 31 \<and> s * (r - 1) < 2 ^ 31 \<longrightarrow>
      (\<exists>cb. cb_new mem r c s d = Inr cb \<and> valid_buffer cb \<and> cursor_inv cb \<and>
         current_time cb = s * (r - 1) \<and> current_row cb = nat (r - 1) \<and>
         get_start_time cb = 0)) \<and>
   (valid_buffer cb \<and> cursor_inv cb \<longrightarrow>
      valid_buffer (snd (cb_add cb ns_arg col_arg val_arg)) \<and>
      cursor_inv (snd (cb_add cb ns_arg col_arg val_arg)) \<and>
      valid_buffer (snd (cb_set cb ns_arg col_arg val_arg)) \<and>
      cursor_inv (snd (cb_set cb ns_arg col_arg val_arg)) \<and>
      snd (cb_get cb ns_arg col_arg) = cb \<and>
      (\<exists>res. cb_get_range cb col_arg start_arg end_arg = Some res \<and> snd res = cb) \<and>
      valid_buffer (snd (cb_set_header cb col_arg name_arg unit_arg agg_arg)) \<and>
      cursor_inv (snd (cb_set_header cb col_arg name_arg unit_arg agg_arg)) \<and>
      valid_buffer (snd (cb_format cb fmt_arg)) \<and>
      cursor_inv (snd (cb_format cb fmt_arg)) \<and>
      get_start_time cb = current_time cb - int (seconds_per_row cb) * (int (rows cb) - 1) \<and>
      (- (2 ^ 31) \<le> aligned_time cb ns div int (seconds_per_row cb) \<and>
       aligned_time cb ns div int (seconds_per_row cb) < 2 ^ 31 \<and>
       - (2 ^ 31) \<le> current_time cb div int (seconds_per_row cb) \<and>
       current_time cb div int (seconds_per_row cb) < 2 ^ 31 \<and>
       \<bar>aligned_time cb ns div int (seconds_per_row cb) -
          current_time cb div int (seconds_per_row cb)\<bar> < 2 ^ 31 \<longrightarrow>
         (fst (check_row cb ns False) \<noteq> - 1 \<longleftrightarrow>
            get_start_time cb \<le> aligned_time cb ns \<and> aligned_time cb ns \<le> current_time cb))) \<and>
   (valid_buffer cb \<and> cb_fromstring cb t n p = Some res \<longrightarrow>
      valid_buffer (snd res) \<and>
      current_time (snd res) = t \<and> current_row (snd res) = uint32_of (int n) \<and>
      (cursor_inv (snd res) \<longleftrightarrow>
         uint32_of (int n) < rows cb \<and> c_mod t (int (seconds_per_row cb)) = 0))"
proof -
  have new: "1 < r \<and> 0 < c \<and> 0 < s \<and> r * c < 2 ^ 31 \<and> s * (r - 1) < 2 ^ 31 \<longrightarrow>
      (\<exists>cb. cb_new mem r c s d = Inr cb \<and> valid_buffer cb \<and> cursor_inv cb \<and>
         current_time cb = s * (r - 1) \<and> current_row cb = nat (r - 1) \<and>
         get_start_time cb = 0)"
  proof
    assume a: "1 < r \<and> 0 < c \<and> 0 < s \<and> r * c < 2 ^ 31 \<and> s * (r - 1) < 2 ^ 31"
    then have "1 < r" "0 < c" "0 < s" "r * c < 2 ^ 31" "s * (r - 1) < 2 ^ 31" by simp_all
    from cb_new_valid [OF this, of mem d]
    show "\<exists>cb. cb_new mem r c s d = Inr cb \<and> valid_buffer cb \<and> cursor_inv cb \<and>
         current_time cb = s * (r - 1) \<and> current_row cb = nat (r - 1) \<and>
         get_start_time cb = 0"
      by blast
  qed
  have ops: "valid_buffer (snd (cb_add cb ns_arg col_arg val_arg)) \<and>
      cursor_inv (snd (cb_add cb ns_arg col_arg val_arg)) \<and>
      valid_buffer (snd (cb_set cb ns_arg col_arg val_arg)) \<and>
      cursor_inv (snd (cb_set cb ns_arg col_arg val_arg)) \<and>
      snd (cb_get cb ns_arg col_arg) = cb \<and>
      (\<exists>res. cb_get_range cb col_arg start_arg end_arg = Some res \<and> snd res = cb) \<and>
      valid_buffer (snd (cb_set_header cb col_arg name_arg unit_arg agg_arg)) \<and>
      cursor_inv (snd (cb_set_header cb col_arg name_arg unit_arg agg_arg)) \<and>
      valid_buffer (snd (cb_format cb fmt_arg)) \<and>
      cursor_inv (snd (cb_format cb fmt_arg)) \<and>
      get_start_time cb = current_time cb - int (seconds_per_row cb) * (int (rows cb) - 1) \<and>
      (- (2 ^ 31) \<le> aligned_time cb ns div int (seconds_per_row cb) \<and>
       aligned_time cb ns div int (seconds_per_row cb) < 2 ^ 31 \<and>
       - (2 ^ 31) \<le> current_time cb div int (seconds_per_row cb) \<and>
       current_time cb div int (seconds_per_row cb) < 2 ^ 31 \<and>
       \<bar>aligned_time cb ns div int (seconds_per_row cb) -
          current_time cb div int (seconds_per_row cb)\<bar> < 2 ^ 31 \<longrightarrow>
         (fst (check_row cb ns False) \<noteq> - 1 \<longleftrightarrow>
            get_start_time cb \<le> aligned_time cb ns \<and> aligned_time cb ns \<le> current_time cb))"
    if v: "valid_buffer cb" and i: "cursor_inv cb"
  proof -
    have row: "valid_buffer (snd (check_row cb x advance))"
      "cursor_inv (snd (check_row cb x advance))" for x advance
      using valid_buffer_check_row [OF v] cursor_inv_check_row [OF v i] by simp_all
    obtain x1 a1 where
      "same_cursor (snd (cb_add cb ns_arg col_arg val_arg)) (snd (check_row cb x1 a1))"
      using cb_add_cursor by blast
    then have add: "valid_buffer (snd (cb_add cb ns_arg col_arg val_arg))"
      "cursor_inv (snd (cb_add cb ns_arg col_arg val_arg))"
      using row same_cursor_valid same_cursor_inv by blast+
    obtain x2 a2 where
      "same_cursor (snd (cb_set cb ns_arg col_arg val_arg)) (snd (check_row cb x2 a2))"
      using cb_set_cursor by blast
    then have set: "valid_buffer (snd (cb_set cb ns_arg col_arg val_arg))"
      "cursor_inv (snd (cb_set cb ns_arg col_arg val_arg))"
      using row same_cursor_valid same_cursor_inv by blast+
    have get: "snd (cb_get cb ns_arg col_arg) = cb" by (rule cb_get_buffer)
    obtain res where res: "cb_get_range cb col_arg start_arg end_arg = Some res"
      using cb_get_range_total [OF v] by blast
    then have range: "\<exists>res. cb_get_range cb col_arg start_arg end_arg = Some res \<and> snd res = cb"
      using cb_get_range_buffer by blast
    have hdr: "valid_buffer (snd (cb_set_header cb col_arg name_arg unit_arg agg_arg))"
      "cursor_inv (snd (cb_set_header cb col_arg name_arg unit_arg agg_arg))"
      using cb_set_header_cursor same_cursor_valid [OF _ v] same_cursor_inv [OF _ i] by blast+
    have fmt: "valid_buffer (snd (cb_format cb fmt_arg))"
      "cursor_inv (snd (cb_format cb fmt_arg))"
      using cb_format_cursor same_cursor_valid [OF _ v] same_cursor_inv [OF _ i] by blast+
    note start = get_start_time_eq [OF v]
    have window: "- (2 ^ 31) \<le> aligned_time cb ns div int (seconds_per_row cb) \<and>
       aligned_time cb ns div int (seconds_per_row cb) < 2 ^ 31 \<and>
       - (2 ^ 31) \<le> current_time cb div int (seconds_per_row cb) \<and>
       current_time cb div int (seconds_per_row cb) < 2 ^ 31 \<and>
       \<bar>aligned_time cb ns div int (seconds_per_row cb) -
          current_time cb div int (seconds_per_row cb)\<bar> < 2 ^ 31 \<longrightarrow>
         (fst (check_row cb ns False) \<noteq> - 1 \<longleftrightarrow>
            get_start_time cb \<le> aligned_time cb ns \<and> aligned_time cb ns \<le> current_time cb)"
      using check_row_window [OF v i, of ns] by blast
    show ?thesis
      by (intro conjI) (rule add(1), rule add(2), rule set(1), rule set(2), rule get,
        rule range, rule hdr(1), rule hdr(2), rule fmt(1), rule fmt(2), rule start, rule window)
  qed
  have restore: "valid_buffer (snd res) \<and>
      current_time (snd res) = t \<and> current_row (snd res) = uint32_of (int n) \<and>
      (cursor_inv (snd res) \<longleftrightarrow>
         uint32_of (int n) < rows cb \<and> c_mod t (int (seconds_per_row cb)) = 0)"
    if v: "valid_buffer cb" and f: "cb_fromstring cb t n p = Some res"
  proof -
    have s: "same_cursor (snd res) (cb\<lparr>current_time := t, current_row := uint32_of (int n)\<rparr>)"
      using f by (rule cb_fromstring_cursor)
    have "uint32_of (int n) < 2 ^ 32" by (simp add: uint32_of_def)
    then have "valid_buffer (cb\<lparr>current_time := t, current_row := uint32_of (int n)\<rparr>)"
      using v by (simp add: valid_buffer_def)
    then have "valid_buffer (snd res)" using s by (rule same_cursor_valid [rotated])
    then show ?thesis
      using s by (simp add: same_cursor_def cursor_inv_def)
  qed
  show ?thesis
    using new ops restore by blast
qed

theorem cursor_invariant_witness:
  "(1::int) < 3 \<and> (0::int) < 1 \<and> (0::int) < 2 \<and> (3::int) * 1 < 2 ^ 31 \<and> (2::int) * (3 - 1) < 2 ^ 31 \<and>
   cb_new (\<lambda>i. NAN) 3 1 2 False = Inr new_3x1_2s \<and>
   valid_buffer new_3x1_2s \<and> cursor_inv new_3x1_2s \<and> get_start_time new_3x1_2s = 0 \<and>
   cursor_inv (snd (cb_add new_3x1_2s (Given (Finite 9000000000)) (Given 1) (Given (Finite 1)))) \<and>
   current_time (snd (cb_add new_3x1_2s (Given (Finite 9000000000)) (Given 1) (Given (Finite 1)))) = 8 \<and>
   current_row (snd (cb_add new_3x1_2s (Given (Finite 9000000000)) (Given 1) (Given (Finite 1)))) = 1 \<and>
   aligned_time new_3x1_2s (Finite 1000000000) = 0 \<and>
   fst (check_row new_3x1_2s (Finite 1000000000) False) \<noteq> - 1 \<and>
   cb_fromstring new_3x1_2s 6 0 [Number (Finite 10), Number (Finite 20), Number (Finite 30)] =
     Some (Inr (), new_3x1_2s\<lparr>current_time := 6, current_row := 0,
       vals := [Finite 10, Finite 20, Finite 30]\<rparr>) \<and>
   cursor_inv (new_3x1_2s\<lparr>current_time := 6, current_row := 0,
       vals := [Finite 10, Finite 20, Finite 30]\<rparr>)"
proof -
  note v = valid_new_3x1_2s
  have i: "cursor_inv new_3x1_2s"
    by (simp add: cursor_inv_def new_3x1_2s_def fresh_3x1_def c_mod_def)
  have a: "(1::int) < 3 \<and> (0::int) < 1 \<and> (0::int) < 2 \<and> (3::int) * 1 < 2 ^ 31 \<and>
      (2::int) * (3 - 1) < 2 ^ 31"
    by simp
  have n: "cb_new (\<lambda>i. NAN) 3 1 2 False = Inr new_3x1_2s"
    by (simp add: cb_new_def new_3x1_2s_def fresh_3x1_def clear_rows_def copy_cleared_row_def Let_def
      int32_of_def uint32_of_def set_row_nan_def copy_cleared_loop.simps
      COLUMN_NAME_SIZE_def UNIT_LABEL_SIZE_def strncpy_def c_string_def default_unit_def
      decimal_1 upt_3)
  have "\<exists>cb. cb_new (\<lambda>i. NAN) 3 1 2 False = Inr cb \<and> valid_buffer cb \<and> cursor_inv cb \<and>
         current_time cb = 2 * (3 - 1) \<and> current_row cb = nat (3 - 1) \<and> get_start_time cb = 0"
    using cursor_invariant [where r = 3 and c = 1 and s = 2 and mem = "\<lambda>i. NAN" and d = False] a
    by blast
  then have g: "get_start_time new_3x1_2s = 0"
    by (simp add: n)
  have c1: "cursor_inv (snd (cb_add new_3x1_2s (Given (Finite 9000000000)) (Given 1) (Given (Finite 1))))"
    using cursor_invariant [where cb = new_3x1_2s] v i by blast
  have e: "check_row new_3x1_2s (Finite 9000000000) True =
      (1, new_3x1_2s\<lparr>current_time := 8, current_row := 1\<rparr>)"
    by (simp add: new_3x1_2s_def fresh_3x1_def eval_defs
      clear_rows_def copy_cleared_row_def set_row_nan_def copy_cleared_loop.simps)
  have c2: "current_time (snd (cb_add new_3x1_2s (Given (Finite 9000000000)) (Given 1) (Given (Finite 1)))) = 8"
    "current_row (snd (cb_add new_3x1_2s (Given (Finite 9000000000)) (Given 1) (Given (Finite 1)))) = 1"
    by (simp_all add: cb_add_def e Let_def split: sum.splits)
  have t: "aligned_time new_3x1_2s (Finite 1000000000) = 0"
    "current_time new_3x1_2s = 4" "seconds_per_row new_3x1_2s = 2"
    by (simp_all add: new_3x1_2s_def fresh_3x1_def eval_defs)
  have "fst (check_row new_3x1_2s (Finite 1000000000) False) \<noteq> - 1 \<longleftrightarrow>
      get_start_time new_3x1_2s \<le> aligned_time new_3x1_2s (Finite 1000000000) \<and>
      aligned_time new_3x1_2s (Finite 1000000000) \<le> current_time new_3x1_2s"
    using cursor_invariant [where cb = new_3x1_2s and ns = "Finite 1000000000"] v i
    by (simp add: t)
  then have w: "fst (check_row new_3x1_2s (Finite 1000000000) False) \<noteq> - 1"
    by (simp add: t g)
  have f: "cb_fromstring new_3x1_2s 6 0 (map Number [Finite 10, Finite 20, Finite 30]) =
     Some (Inr (), new_3x1_2s\<lparr>current_time := 6, current_row := 0,
       vals := [Finite 10, Finite 20, Finite 30]\<rparr>)"
    unfolding cb_fromstring_numbers [OF valid_new_3x1_2s]
    by (simp add: new_3x1_2s_def fresh_3x1_def uint32_of_def)
  have "cursor_inv (snd (Inr () :: failure + unit, new_3x1_2s\<lparr>current_time := 6, current_row := 0,
       vals := [Finite 10, Finite 20, Finite 30]\<rparr>)) \<longleftrightarrow>
      uint32_of (int 0) < rows new_3x1_2s \<and> c_mod 6 (int (seconds_per_row new_3x1_2s)) = 0"
    using cursor_invariant [where cb = new_3x1_2s and t = 6 and n = 0
        and p = "map Number [Finite 10, Finite 20, Finite 30]", OF] v f
    by blast
  then have r: "cursor_inv (new_3x1_2s\<lparr>current_time := 6, current_row := 0,
       vals := [Finite 10, Finite 20, Finite 30]\<rparr>)"
    by (simp add: new_3x1_2s_def fresh_3x1_def uint32_of_def c_mod_def)
  show ?thesis
    using a n v i g c1 c2 t(1) w f r by simp
qed

end
